theory Spec2Isabelle
  imports Main "HOL-Library.Sublist" "HOL-Library.Char_ord" "HOL-Library.List_Lexorder"
begin

section \<open>Go string primitives used by the generator\<close>

text \<open>
  A Go string is a sequence of bytes, here a \<open>string\<close> (a list of 8-bit characters).
  The functions below are the byte-level behaviour of the \<open>strings\<close> package
  operations the program calls.
\<close>

text \<open>
  The UTF-8 encodings of the code points for which \<open>unicode.IsSpace\<close> holds:
  tab, newline, vertical tab, form feed, carriage return, space, U+0085, U+00A0, U+1680,
  U+2000 to U+200A, U+2028, U+2029, U+202F, U+205F and U+3000.
\<close>

definition spaceRunes :: "string list" where
  "spaceRunes =
    [[CHR 0x09], [CHR 0x0A], [CHR 0x0B], [CHR 0x0C], [CHR 0x0D], [CHR 0x20],
     [CHR 0xC2, CHR 0x85], [CHR 0xC2, CHR 0xA0],
     [CHR 0xE1, CHR 0x9A, CHR 0x80],
     [CHR 0xE2, CHR 0x80, CHR 0x80], [CHR 0xE2, CHR 0x80, CHR 0x81],
     [CHR 0xE2, CHR 0x80, CHR 0x82], [CHR 0xE2, CHR 0x80, CHR 0x83],
     [CHR 0xE2, CHR 0x80, CHR 0x84], [CHR 0xE2, CHR 0x80, CHR 0x85],
     [CHR 0xE2, CHR 0x80, CHR 0x86], [CHR 0xE2, CHR 0x80, CHR 0x87],
     [CHR 0xE2, CHR 0x80, CHR 0x88], [CHR 0xE2, CHR 0x80, CHR 0x89],
     [CHR 0xE2, CHR 0x80, CHR 0x8A],
     [CHR 0xE2, CHR 0x80, CHR 0xA8], [CHR 0xE2, CHR 0x80, CHR 0xA9],
     [CHR 0xE2, CHR 0x80, CHR 0xAF],
     [CHR 0xE2, CHR 0x81, CHR 0x9F],
     [CHR 0xE3, CHR 0x80, CHR 0x80]]"

text \<open>The length of the first of the byte sequences \<open>ps\<close> that the string starts with
  (0 when it starts with none), and the string with all such leading sequences removed.\<close>

definition leadLen :: "string list \<Rightarrow> string \<Rightarrow> nat" where
  "leadLen ps s = (case find (\<lambda>p. p \<noteq> [] \<and> prefix p s) ps of None \<Rightarrow> 0 | Some p \<Rightarrow> length p)"

function stripLead :: "string list \<Rightarrow> string \<Rightarrow> string" where
  "stripLead ps s = (if leadLen ps s = 0 then s else stripLead ps (drop (leadLen ps s) s))"
  by pat_completeness auto
termination
proof (relation "measure (\<lambda>(ps, s). length s)")
  show "wf (measure (\<lambda>(ps, s). length s))" by simp
next
  fix ps :: "string list" and s :: string
  assume "leadLen ps s \<noteq> 0"
  then obtain p where "p \<noteq> []" "prefix p s"
    by (auto simp: leadLen_def split: option.splits dest: find_Some_iff[THEN iffD1])
  then have "s \<noteq> []" by auto
  with \<open>leadLen ps s \<noteq> 0\<close> show "((ps, drop (leadLen ps s) s), (ps, s)) \<in> measure (\<lambda>(ps, s). length s)"
    by simp
qed

declare stripLead.simps [simp del]

text \<open>\<open>strings.TrimSpace\<close>: all leading, then all trailing white-space runes removed.
  Go decodes the string rune by rune, from the front and then from the back; a rune is
  white space exactly when the bytes at that end are one of the encodings above (an
  invalid or truncated sequence decodes to U+FFFD, which is not white space), so the
  trimming is a matter of byte prefixes and suffixes.\<close>

definition TrimSpace :: "string \<Rightarrow> string" where
  "TrimSpace s = rev (stripLead (map rev spaceRunes) (rev (stripLead spaceRunes s)))"

text \<open>\<open>strings.Split(s, sep)\<close> for a separator \<open>c # cs\<close>: the pieces between the
  non-overlapping occurrences of the separator, found from the left.\<close>

fun splitAcc :: "char \<Rightarrow> string \<Rightarrow> string \<Rightarrow> string \<Rightarrow> string list" where
  "splitAcc c cs acc [] = [rev acc]"
| "splitAcc c cs acc (x # xs) =
     (if prefix (c # cs) (x # xs) then rev acc # splitAcc c cs [] (drop (length cs) xs)
      else splitAcc c cs (x # acc) xs)"

text \<open>An empty separator splits after each UTF-8 sequence in Go; the program never
  passes one, and the model then returns the bytes one by one.\<close>

definition Split :: "string \<Rightarrow> string \<Rightarrow> string list" where
  "Split s sep = (case sep of [] \<Rightarrow> map (\<lambda>x. [x]) s | c # cs \<Rightarrow> splitAcc c cs [] s)"

text \<open>\<open>strings.Join\<close>.\<close>

fun Join :: "string list \<Rightarrow> string \<Rightarrow> string" where
  "Join [] sep = []"
| "Join [x] sep = x"
| "Join (x # y # ys) sep = x @ sep @ Join (y # ys) sep"

text \<open>\<open>strings.TrimLeft(s, cutset)\<close> for an ASCII cutset, \<open>strings.TrimSuffix\<close>
  and \<open>strings.HasPrefix\<close>.\<close>

definition TrimLeft :: "string \<Rightarrow> string \<Rightarrow> string" where
  "TrimLeft s cutset = dropWhile (\<lambda>x. x \<in> set cutset) s"

definition TrimSuffix :: "string \<Rightarrow> string \<Rightarrow> string" where
  "TrimSuffix s suf = (if suffix suf s then take (length s - length suf) s else s)"

definition HasPrefix :: "string \<Rightarrow> string \<Rightarrow> bool" where
  "HasPrefix s p = prefix p s"

section \<open>Version normalisation (cmd/generate.go)\<close>

text \<open>The loop of \<open>normalizeVersion\<close>: copy bytes while they are ASCII digits or dots,
  stop at the first other one. (A multi-byte rune has no byte in that range, so ranging
  over runes and over bytes stop at the same place.) The element \<open>[0]\<close> of a split is
  \<open>hd\<close>: a split by a non-empty separator is never empty (\<open>Split_nonempty\<close> below).\<close>

definition isDigitOrDot :: "char \<Rightarrow> bool" where
  "isDigitOrDot r = ((CHR ''0'' \<le> r \<and> r \<le> CHR ''9'') \<or> r = CHR ''.'')"

fun copyDigits :: "string \<Rightarrow> string \<Rightarrow> string" where
  "copyDigits b [] = b"
| "copyDigits b (r # rs) = (if isDigitOrDot r then copyDigits (b @ [r]) rs else b)"

definition normalizeVersion :: "string \<Rightarrow> string" where
  "normalizeVersion v0 =
     (let v = TrimSpace v0 in
      if v = [] then []
      else
        let v = hd (Split v ''||'');
            v = hd (Split v '' '');
            v = TrimLeft v ''^~><= ''
        in copyDigits [] v)"

text \<open>The code shared by \<open>addRulesFor\<close> and \<open>addAgentFor\<close>:
  \<open>major := parts[0]\<close>, and \<open>minor := parts[1]\<close> when there is a second part.
  \<open>strings.Split\<close> with a non-empty separator returns at least one part, so the first
  equation is never reached from the callers.\<close>

fun majorMinor :: "string list \<Rightarrow> string \<times> string" where
  "majorMinor [] = ([], [])"
| "majorMinor [major] = (major, [])"
| "majorMinor (major # minor # rest) = (major, minor)"

section \<open>The embedded rule store (rules/rules.go)\<close>

datatype error = ErrNotExist | ErrPermission | ErrNotDir | ErrIsDir | ErrSyntax

text \<open>The embedded file system: the embedded files, each a path with its content.\<close>

type_synonym embedFS = "(string \<times> string) list"

text \<open>\<open>filepath.Ext\<close>: the suffix from the last dot of the last path element.\<close>

fun extScan :: "string \<Rightarrow> string \<Rightarrow> string" where
  "extScan [] acc = []"
| "extScan (c # cs) acc =
     (if c = CHR ''/'' then [] else if c = CHR ''.'' then c # acc else extScan cs (c # acc))"

definition Ext :: "string \<Rightarrow> string" where
  "Ext path = extScan (rev path) []"

definition List :: "embedFS \<Rightarrow> error + string list" where
  "List embeddedFS =
     Inr (sort (map (\<lambda>path. TrimSuffix path ''.md'')
                 (filter (\<lambda>path. Ext path = ''.md'') (map fst embeddedFS))))"

definition Get :: "embedFS \<Rightarrow> string \<Rightarrow> error + string" where
  "Get embeddedFS name =
     (case map_of embeddedFS (name @ ''.md'') of
        None \<Rightarrow> Inl ErrNotExist
      | Some data \<Rightarrow> Inr data)"

section \<open>The detected stack (internal/detect)\<close>

record DetectedStack =
  PHP :: string
  Laravel :: string
  Nuxt :: string
  Vue :: string
  NuxtUI :: string

definition emptyStack :: DetectedStack where
  "emptyStack = \<lparr>PHP = [], Laravel = [], Nuxt = [], Vue = [], NuxtUI = []\<rparr>"

section \<open>Rule resolution and merge (cmd/generate.go, embedded-rules version)\<close>

record agentFile =
  Label :: string
  ID :: string

definition separator :: string where
  "separator = ''\<newline>\<newline>---\<newline>\<newline>''"

text \<open>\<open>buildStackSection\<close>; the argument is \<open>None\<close> for a nil pointer.\<close>

definition buildStackSection :: "DetectedStack option \<Rightarrow> string" where
  "buildStackSection stack0 =
     (case stack0 of
        None \<Rightarrow> []
      | Some stack \<Rightarrow>
          let lines = [];
              lines = (if PHP stack \<noteq> [] then lines @ [''- PHP: '' @ PHP stack] else lines);
              lines = (if Laravel stack \<noteq> [] then lines @ [''- Laravel: '' @ Laravel stack] else lines);
              lines = (if Nuxt stack \<noteq> [] then lines @ [''- Nuxt: '' @ Nuxt stack] else lines);
              lines = (if Vue stack \<noteq> [] then lines @ [''- Vue: '' @ Vue stack] else lines);
              lines = (if NuxtUI stack \<noteq> [] then lines @ [''- Nuxt UI: '' @ NuxtUI stack] else lines)
          in if length lines = 0 then []
             else ''## Stack\<newline>\<newline>'' @ Join lines ''\<newline>'')"

definition ruleExists :: "embedFS \<Rightarrow> string \<Rightarrow> bool" where
  "ruleExists fs ident = (case Get fs ident of Inl err \<Rightarrow> False | Inr data \<Rightarrow> True)"

definition addIfExists :: "embedFS \<Rightarrow> string list \<Rightarrow> string \<Rightarrow> string list" where
  "addIfExists fs ids ident = (if ruleExists fs ident then ids @ [ident] else ids)"

definition addRulesFor :: "embedFS \<Rightarrow> string list \<Rightarrow> string \<Rightarrow> string \<Rightarrow> string list" where
  "addRulesFor fs ids name version =
     (if version = [] then ids
      else
        let ids = addIfExists fs ids (name @ ''/general'');
            norm = normalizeVersion version
        in if norm = [] then ids
           else
             let (major, minor) = majorMinor (Split norm ''.'');
                 ids = (if major \<noteq> [] \<and> minor \<noteq> []
                        then addIfExists fs ids (name @ ''/'' @ major @ ''.'' @ minor @ ''/general'')
                        else ids);
                 ids = (if major \<noteq> []
                        then addIfExists fs ids (name @ ''/'' @ major @ ''/general'')
                        else ids)
             in ids)"

definition buildGeneralRulesFromDetection :: "embedFS \<Rightarrow> DetectedStack \<Rightarrow> string list" where
  "buildGeneralRulesFromDetection fs stack =
     (let ids = [];
          ids = addRulesFor fs ids ''php'' (PHP stack);
          ids = addRulesFor fs ids ''laravel'' (Laravel stack);
          ids = addRulesFor fs ids ''nuxt'' (Nuxt stack);
          ids = addRulesFor fs ids ''vue'' (Vue stack);
          ids = addRulesFor fs ids ''nuxt_ui'' (NuxtUI stack)
      in ids)"

definition addAgentFor ::
  "embedFS \<Rightarrow> agentFile list \<Rightarrow> string \<Rightarrow> string \<Rightarrow> string \<Rightarrow> agentFile list" where
  "addAgentFor fs files label name version =
     (if version = [] then files
      else
        let norm = normalizeVersion version;
            (major, minor) = majorMinor (Split norm ''.'')
        in if major \<noteq> [] \<and> minor \<noteq> []
              \<and> ruleExists fs (name @ ''/'' @ major @ ''.'' @ minor @ ''/agent'')
           then files @ [\<lparr>Label = label, ID = name @ ''/'' @ major @ ''.'' @ minor @ ''/agent''\<rparr>]
           else if major \<noteq> [] \<and> ruleExists fs (name @ ''/'' @ major @ ''/agent'')
           then files @ [\<lparr>Label = label, ID = name @ ''/'' @ major @ ''/agent''\<rparr>]
           else if ruleExists fs (name @ ''/agent'')
           then files @ [\<lparr>Label = label, ID = name @ ''/agent''\<rparr>]
           else files)"

definition buildAgentRulesFromDetection :: "embedFS \<Rightarrow> DetectedStack \<Rightarrow> agentFile list" where
  "buildAgentRulesFromDetection fs stack =
     (let files = [];
          files = addAgentFor fs files ''PHP'' ''php'' (PHP stack);
          files = addAgentFor fs files ''Laravel'' ''laravel'' (Laravel stack);
          files = addAgentFor fs files ''Nuxt'' ''nuxt'' (Nuxt stack);
          files = addAgentFor fs files ''Vue'' ''vue'' (Vue stack);
          files = addAgentFor fs files ''Nuxt UI'' ''nuxt_ui'' (NuxtUI stack)
      in files)"

definition deriveRuleLabel :: "string \<Rightarrow> string" where
  "deriveRuleLabel ident =
     (let ident = TrimSuffix ident ''/general'';
          ident = TrimSuffix ident ''/agent'';
          parts = Split ident ''/''
      in Join parts '' '')"

text \<open>One iteration of the loop of \<open>loadAndMergeRules\<close> on the builder \<open>b\<close>.\<close>

definition mergeRule :: "embedFS \<Rightarrow> string \<Rightarrow> string \<Rightarrow> string" where
  "mergeRule fs b ident =
     (case Get fs ident of
        Inl err \<Rightarrow>
          (let b = (if length b > 0 then b @ separator else b)
           in b @ ''<!-- Missing instructions for '' @ deriveRuleLabel ident
                @ '' (expected file: rules/'' @ ident @ ''.md) -->'')
      | Inr data \<Rightarrow>
          (let b = (if length b > 0 then b @ separator else b)
           in b @ data))"

definition loadAndMergeRules :: "embedFS \<Rightarrow> string list \<Rightarrow> string \<times> error option" where
  "loadAndMergeRules fs ids = (foldl (mergeRule fs) [] ids, None)"

text \<open>The loop of \<open>buildAgentContent\<close>, \<open>i\<close> the index of the head of the list.\<close>

fun agentLoop :: "embedFS \<Rightarrow> string \<Rightarrow> nat \<Rightarrow> agentFile list \<Rightarrow> string" where
  "agentLoop fs b i [] = b"
| "agentLoop fs b i (af # files) =
     (let b = (if i > 0 then b @ separator else b);
          b = b @ ''## '' @ Label af @ ''\<newline>\<newline>''
      in case Get fs (ID af) of
           Inl err \<Rightarrow>
             agentLoop fs
               (b @ ''<!-- Missing agent instructions for '' @ Label af
                  @ '' (expected file: rules/'' @ ID af @ ''.md) -->'')
               (i + 1) files
         | Inr data \<Rightarrow> agentLoop fs (b @ data) (i + 1) files)"

definition buildAgentContent :: "embedFS \<Rightarrow> agentFile list \<Rightarrow> string" where
  "buildAgentContent fs files =
     agentLoop fs
       (''# Agents\<newline>\<newline>''
          @ ''<!-- Generated by ai-instructions. Do not edit manually. -->\<newline>\<newline>---\<newline>\<newline>'')
       0 files"

text \<open>The agent resolution as the specification words it: the identifiers of one
  technology in the order in which they are tried, the \<open>major.minor\<close> one when both
  parts are there, the \<open>major\<close> one when there is a major part, the base one last.\<close>

definition agentCandidates :: "string \<Rightarrow> string \<Rightarrow> string \<Rightarrow> string list" where
  "agentCandidates name major minor =
     (if major \<noteq> [] \<and> minor \<noteq> [] then [name @ ''/'' @ major @ ''.'' @ minor @ ''/agent''] else [])
     @ (if major \<noteq> [] then [name @ ''/'' @ major @ ''/agent''] else [])
     @ [name @ ''/agent'']"

subsection \<open>The generate and validate commands on the general document\<close>

text \<open>The general document of the generate command in automatic mode (no \<open>--rule\<close>
  flag), from the detected stack on: \<open>None\<close> when no rule was selected and nothing is
  written, else the text written to the instructions file.\<close>

definition generateGeneral :: "embedFS \<Rightarrow> DetectedStack \<Rightarrow> error + string option" where
  "generateGeneral fs stack =
     (let generalRuleIDs = buildGeneralRulesFromDetection fs stack
      in if length generalRuleIDs > 0
         then (case loadAndMergeRules fs generalRuleIDs of
                 (content, Some err) \<Rightarrow> Inl err
               | (content, None) \<Rightarrow>
                   let stackSection = buildStackSection (Some stack);
                       content = (if stackSection \<noteq> []
                                  then stackSection @ ''\<newline>\<newline>---\<newline>\<newline>'' @ content
                                  else content)
                   in Inr (Some content))
         else Inr None)"

text \<open>The errors of the validate command (cmd/validate.go), by their message.\<close>

datatype validateError =
    RulesListFailed error
  | EmbeddedRulesEmpty
  | NoGeneralRulesResolved
  | MissingEmbeddedRule string
  | MergeFailed error

text \<open>The expected text the validate command recomputes from the detected stack.\<close>

definition validateExpected :: "embedFS \<Rightarrow> DetectedStack \<Rightarrow> validateError + string" where
  "validateExpected fs stack =
     (case List fs of
        Inl err \<Rightarrow> Inl (RulesListFailed err)
      | Inr list \<Rightarrow>
          if length list = 0 then Inl EmbeddedRulesEmpty
          else
            let generalIDs = buildGeneralRulesFromDetection fs stack
            in if length generalIDs = 0 then Inl NoGeneralRulesResolved
               else (case find (\<lambda>ident. \<not> ruleExists fs ident) generalIDs of
                       Some ident \<Rightarrow> Inl (MissingEmbeddedRule ident)
                     | None \<Rightarrow>
                        (case loadAndMergeRules fs generalIDs of
                           (generalContent, Some err) \<Rightarrow> Inl (MergeFailed err)
                         | (generalContent, None) \<Rightarrow>
                             let stackSection = buildStackSection (Some stack);
                                 generalContent =
                                   (if stackSection \<noteq> []
                                    then stackSection @ ''\<newline>\<newline>---\<newline>\<newline>'' @ generalContent
                                    else generalContent)
                             in Inr generalContent)))"

datatype fileStatus = statusUpToDate | statusMissing | statusOutdated

text \<open>\<open>compareFileStatus\<close>, on the result of \<open>os.ReadFile(path)\<close>.\<close>

definition compareFileStatus :: "error + string \<Rightarrow> string \<Rightarrow> fileStatus" where
  "compareFileStatus file expected =
     (case file of
        Inl err \<Rightarrow> (if err = ErrNotExist then statusMissing else statusOutdated)
      | Inr data \<Rightarrow>
          if TrimSpace data = TrimSpace expected then statusUpToDate else statusOutdated)"

section \<open>Merging rule files read from disk (cmd/generate.go, file-based version)\<close>

definition TrimPrefix :: "string \<Rightarrow> string \<Rightarrow> string" where
  "TrimPrefix s p = (if prefix p s then drop (length p) s else s)"

text \<open>\<open>deriveRuleNameFromPath\<close>; \<open>Clean\<close> stands for \<open>filepath.Clean\<close>, and the path
  separator is the slash.\<close>

definition deriveRuleNameFromPath :: "(string \<Rightarrow> string) \<Rightarrow> string \<Rightarrow> string" where
  "deriveRuleNameFromPath Clean path =
     (let p = Clean path;
          p = TrimPrefix p (''rules'' @ ''/'');
          p = TrimSuffix p ''.md'';
          parts = Split p ''/''
      in case parts of [part] \<Rightarrow> part | _ \<Rightarrow> Join parts '' '')"

text \<open>One iteration of the loop of \<open>loadAndMergeFiles\<close>; \<open>disk\<close> is \<open>os.ReadFile\<close>.\<close>

definition mergeFile ::
  "(string \<Rightarrow> string) \<Rightarrow> (string \<Rightarrow> error + string) \<Rightarrow> string \<Rightarrow> string \<Rightarrow> string" where
  "mergeFile Clean disk b f =
     (case disk f of
        Inl err \<Rightarrow>
          (let b = (if length b > 0 then b @ separator else b);
               ruleName = deriveRuleNameFromPath Clean f
           in b @ ''<!-- Missing instructions for '' @ ruleName
                @ '' (expected file: '' @ f @ '') -->'')
      | Inr data \<Rightarrow>
          (let b = (if length b > 0 then b @ separator else b)
           in b @ data))"

definition loadAndMergeFiles ::
  "(string \<Rightarrow> string) \<Rightarrow> (string \<Rightarrow> error + string) \<Rightarrow> string list \<Rightarrow> string \<times> error option" where
  "loadAndMergeFiles Clean disk files = (foldl (mergeFile Clean disk) [] files, None)"

text \<open>\<open>filepath.Join\<close>: the elements from the first non-empty one on, joined by slashes
  and cleaned; the empty string when all are empty. \<open>Clean\<close> stands for
  \<open>filepath.Clean\<close>.\<close>

definition filepathJoin :: "(string \<Rightarrow> string) \<Rightarrow> string list \<Rightarrow> string" where
  "filepathJoin Clean elem =
     (case dropWhile (\<lambda>e. e = []) elem of
        [] \<Rightarrow> []
      | e # es \<Rightarrow> Clean (Join (e # es) ''/''))"

text \<open>The \<open>agentFile\<close> of the file-based version: a label and the path of a file.\<close>

record agentFile_f =
  Label_f :: string
  Path :: string

text \<open>\<open>addAgentFor\<close> of the file-based version (src/cmd/generate.go). It reads nothing
  from the disk: the path is built from the parts of the version alone.\<close>

definition addAgentFor_f ::
  "(string \<Rightarrow> string) \<Rightarrow> agentFile_f list \<Rightarrow> string \<Rightarrow> string \<Rightarrow> string \<Rightarrow> agentFile_f list" where
  "addAgentFor_f Clean files label name version =
     (if version = [] then files
      else
        let baseDir = filepathJoin Clean [''rules'', name];
            norm = normalizeVersion version;
            (major, minor) = majorMinor (Split norm ''.'')
        in if major \<noteq> [] \<and> minor \<noteq> []
           then files @ [\<lparr>Label_f = label,
                           Path = filepathJoin Clean [baseDir, major @ ''.'' @ minor, ''agent.md'']\<rparr>]
           else if major \<noteq> []
           then files @ [\<lparr>Label_f = label, Path = filepathJoin Clean [baseDir, major, ''agent.md'']\<rparr>]
           else files @ [\<lparr>Label_f = label, Path = filepathJoin Clean [baseDir, ''agent.md'']\<rparr>])"

section \<open>Stack detection (internal/detect)\<close>

subsection \<open>The project tree\<close>

text \<open>What \<open>json.Unmarshal\<close> leaves in each target struct. A Go map is a partial
  function; a nil map is \<open>None\<close> where the code tests for it.\<close>

record composerJSON =
  Require :: "string \<rightharpoonup> string"
  ConfigPlatform :: "(string \<rightharpoonup> string) option"

record packageJSON =
  Dependencies :: "string \<rightharpoonup> string"
  DevDependencies :: "string \<rightharpoonup> string"

text \<open>Of each entry of the two maps of a lock file only the \<open>Version\<close> field is read.\<close>

record lockFile =
  LockDependencies :: "string \<rightharpoonup> string"
  LockPackages :: "string \<rightharpoonup> string"

datatype technology = TechPHP | TechLaravel | TechNuxt | TechVue | TechNuxtUI

text \<open>A regular file: whether reading it fails, and what decoding its bytes into each
  of the reader's structs gives (\<open>None\<close> when \<open>json.Unmarshal\<close> returns an error). The last
  field is what the composer.lock reader finds in it.\<close>

record fileData =
  unreadable :: bool
  asComposerJSON :: "composerJSON option"
  asPackageJSON :: "packageJSON option"
  asLockFile :: "lockFile option"
  asComposerLock :: "(technology \<times> string) list option"

text \<open>A directory has two permissions: \<open>listable\<close> (its entries can be read) and
  \<open>searchable\<close> (the files in it can be opened), and its entries in the order
  \<open>os.ReadDir\<close> returns them.\<close>

datatype node =
    File fileData
  | Dir (listable: bool) (searchable: bool) (entries: "(string \<times> node) list")

fun isDir :: "node \<Rightarrow> bool" where
  "isDir (File fd) = False"
| "isDir (Dir l s es) = True"

text \<open>\<open>os.ReadFile(filepath.Join(dir, name))\<close>, for a directory that may not exist
  (\<open>None\<close>) or may be a regular file.\<close>

fun ReadFile :: "node option \<Rightarrow> string \<Rightarrow> error + fileData" where
  "ReadFile None name = Inl ErrNotExist"
| "ReadFile (Some (File fd)) name = Inl ErrNotDir"
| "ReadFile (Some (Dir l s es)) name =
     (if \<not> s then Inl ErrPermission
      else case map_of es name of
             None \<Rightarrow> Inl ErrNotExist
           | Some (Dir l' s' es') \<Rightarrow> Inl ErrIsDir
           | Some (File fd) \<Rightarrow> if unreadable fd then Inl ErrPermission else Inr fd)"

definition IsNotExist :: "error \<Rightarrow> bool" where
  "IsNotExist err = (err = ErrNotExist)"

subsection \<open>The marker readers\<close>

text \<open>A reader mutates the stack through its pointer and returns an error or nil: the
  model returns the error and the stack after the call.\<close>

definition detectFromComposer :: "node option \<Rightarrow> DetectedStack \<Rightarrow> error option \<times> DetectedStack" where
  "detectFromComposer projectRoot stack =
     (case ReadFile projectRoot ''composer.json'' of
        Inl err \<Rightarrow> (if IsNotExist err then (None, stack) else (Some err, stack))
      | Inr data \<Rightarrow>
         (case asComposerJSON data of
            None \<Rightarrow> (Some ErrSyntax, stack)
          | Some c \<Rightarrow>
              let stack =
                    (if PHP stack = [] \<and> ConfigPlatform c \<noteq> None
                     then (case the (ConfigPlatform c) ''php'' of
                             Some php \<Rightarrow> stack\<lparr>PHP := php\<rparr>
                           | None \<Rightarrow> stack)
                     else stack);
                  stack =
                    (if PHP stack = []
                     then (case Require c ''php'' of
                             Some php \<Rightarrow> stack\<lparr>PHP := php\<rparr>
                           | None \<Rightarrow> stack)
                     else stack);
                  stack =
                    (if Laravel stack = []
                     then (case Require c ''laravel/framework'' of
                             Some v \<Rightarrow> stack\<lparr>Laravel := v\<rparr>
                           | None \<Rightarrow> stack)
                     else stack)
              in (None, stack)))"

text \<open>The closure \<open>get\<close> of \<open>detectFromPackageJson\<close>.\<close>

definition getDep :: "packageJSON \<Rightarrow> string \<Rightarrow> string \<times> bool" where
  "getDep p name =
     (case Dependencies p name of
        Some v \<Rightarrow> (v, True)
      | None \<Rightarrow> (case DevDependencies p name of
                   Some v \<Rightarrow> (v, True)
                 | None \<Rightarrow> ([], False)))"

definition detectFromPackageJson :: "node option \<Rightarrow> DetectedStack \<Rightarrow> error option \<times> DetectedStack" where
  "detectFromPackageJson projectRoot stack =
     (case ReadFile projectRoot ''package.json'' of
        Inl err \<Rightarrow> (if IsNotExist err then (None, stack) else (Some err, stack))
      | Inr data \<Rightarrow>
         (case asPackageJSON data of
            None \<Rightarrow> (Some ErrSyntax, stack)
          | Some p \<Rightarrow>
              let stack = (case getDep p ''nuxt'' of (v, ok) \<Rightarrow>
                             if ok \<and> Nuxt stack = [] then stack\<lparr>Nuxt := v\<rparr> else stack);
                  stack = (case getDep p ''vue'' of (v, ok) \<Rightarrow>
                             if ok \<and> Vue stack = [] then stack\<lparr>Vue := v\<rparr> else stack);
                  stack = (case getDep p ''@nuxt/ui'' of (v, ok) \<Rightarrow>
                             if ok \<and> NuxtUI stack = [] then stack\<lparr>NuxtUI := v\<rparr> else stack)
              in (None, stack)))"

definition detectFromPackageLockJson :: "node option \<Rightarrow> DetectedStack \<Rightarrow> error option \<times> DetectedStack" where
  "detectFromPackageLockJson projectRoot stack =
     (case ReadFile projectRoot ''package-lock.json'' of
        Inl err \<Rightarrow> (if IsNotExist err then (None, stack) else (Some err, stack))
      | Inr data \<Rightarrow>
         (case asLockFile data of
            None \<Rightarrow> (Some ErrSyntax, stack)
          | Some lock \<Rightarrow>
              if NuxtUI stack = []
              then (case LockDependencies lock ''@nuxt/ui'' of
                      Some version \<Rightarrow>
                        if version \<noteq> [] then (None, stack\<lparr>NuxtUI := version\<rparr>)
                        else (case LockPackages lock ''node_modules/@nuxt/ui'' of
                                Some version' \<Rightarrow>
                                  if version' \<noteq> [] then (None, stack\<lparr>NuxtUI := version'\<rparr>)
                                  else (None, stack)
                              | None \<Rightarrow> (None, stack))
                    | None \<Rightarrow>
                        (case LockPackages lock ''node_modules/@nuxt/ui'' of
                           Some version' \<Rightarrow>
                             if version' \<noteq> [] then (None, stack\<lparr>NuxtUI := version'\<rparr>)
                             else (None, stack)
                         | None \<Rightarrow> (None, stack)))
              else (None, stack)))"

text \<open>Modelled from the spec: how a finding (technology, version) of a lock-file reader
  is recorded. The spec (section 4.1) has a lock-file reader supplement the manifest
  reader and never override a value already found: the field is set only when it is
  empty.\<close>

fun recordFinding :: "DetectedStack \<Rightarrow> technology \<times> string \<Rightarrow> DetectedStack" where
  "recordFinding stack (TechPHP, v) = (if PHP stack = [] then stack\<lparr>PHP := v\<rparr> else stack)"
| "recordFinding stack (TechLaravel, v) = (if Laravel stack = [] then stack\<lparr>Laravel := v\<rparr> else stack)"
| "recordFinding stack (TechNuxt, v) = (if Nuxt stack = [] then stack\<lparr>Nuxt := v\<rparr> else stack)"
| "recordFinding stack (TechVue, v) = (if Vue stack = [] then stack\<lparr>Vue := v\<rparr> else stack)"
| "recordFinding stack (TechNuxtUI, v) = (if NuxtUI stack = [] then stack\<lparr>NuxtUI := v\<rparr> else stack)"

text \<open>Modelled from the spec: \<open>detectFromComposerLock\<close>, which the callback of
  \<open>DetectStack\<close> calls for a file named composer.lock and which is not defined in the
  sources embedded here. The spec's contract of a marker reader (section 4.1): the
  reader reads its manifest in the given directory; an absent file gives no findings
  and no error, a malformed one an error, and the findings are recorded first writer
  wins.\<close>

definition detectFromComposerLock :: "node option \<Rightarrow> DetectedStack \<Rightarrow> error option \<times> DetectedStack" where
  "detectFromComposerLock projectRoot stack =
     (case ReadFile projectRoot ''composer.lock'' of
        Inl err \<Rightarrow> (if IsNotExist err then (None, stack) else (Some err, stack))
      | Inr data \<Rightarrow>
         (case asComposerLock data of
            None \<Rightarrow> (Some ErrSyntax, stack)
          | Some findings \<Rightarrow> (None, foldl recordFinding stack findings)))"

subsection \<open>The walk\<close>

text \<open>What the callback returns to \<open>filepath.WalkDir\<close>: nil, \<open>fs.SkipDir\<close> or another error.\<close>

datatype walkResult = Continue | SkipDir | Failed error

definition ignoredDirs :: "string \<Rightarrow> bool" where
  "ignoredDirs name = (name \<in> set [''node_modules'', ''composer'', ''vendor''])"

text \<open>The callback of \<open>DetectStack\<close>. \<open>dir\<close> is the directory \<open>filepath.Dir(path)\<close> of the
  entry, \<open>atRoot\<close> is \<open>path == projectRoot\<close>, \<open>name\<close> and \<open>dirEntry\<close> are \<open>d.Name()\<close> and
  \<open>d.IsDir()\<close>, \<open>err\<close> the error the walk reports.\<close>

definition walkFn ::
  "node option \<Rightarrow> bool \<Rightarrow> string \<Rightarrow> bool \<Rightarrow> error option \<Rightarrow> DetectedStack
     \<Rightarrow> walkResult \<times> DetectedStack" where
  "walkFn dir atRoot name dirEntry err stack =
     (if err \<noteq> None then (Continue, stack)
      else if atRoot then (Continue, stack)
      else if dirEntry
      then (if HasPrefix name ''.'' then (SkipDir, stack)
            else if ignoredDirs name then (SkipDir, stack)
            else (Continue, stack))
      else if name = ''composer.json'' then (Continue, snd (detectFromComposer dir stack))
      else if name = ''composer.lock'' then (Continue, snd (detectFromComposerLock dir stack))
      else if name = ''package.json'' then (Continue, snd (detectFromPackageJson dir stack))
      else if name = ''package-lock.json'' then (Continue, snd (detectFromPackageLockJson dir stack))
      else (Continue, stack))"

text \<open>\<open>walkDir\<close> of \<open>path/filepath\<close>: the callback on the entry; for a directory its
  listing (\<open>os.ReadDir\<close> gives the entries of a listable directory, and no entry and
  an error otherwise, with a second call of the callback for the error), then its
  entries in order. \<open>SkipDir\<close> from a directory skips it, from a file it skips the rest
  of the file's directory; any other error stops the walk.\<close>

fun walkDir ::
  "node option \<Rightarrow> bool \<Rightarrow> string \<Rightarrow> node \<Rightarrow> DetectedStack \<Rightarrow> walkResult \<times> DetectedStack"
and walkEntries ::
  "node option \<Rightarrow> (string \<times> node) list \<Rightarrow> DetectedStack \<Rightarrow> walkResult \<times> DetectedStack" where
  "walkDir dir atRoot name (File fd) stack = walkFn dir atRoot name False None stack"
| "walkDir dir atRoot name (Dir l s es) stack =
     (case walkFn dir atRoot name True None stack of
        (SkipDir, stack1) \<Rightarrow> (Continue, stack1)
      | (Failed err, stack1) \<Rightarrow> (Failed err, stack1)
      | (Continue, stack1) \<Rightarrow>
          if l then walkEntries (Some (Dir l s es)) es stack1
          else (case walkFn dir atRoot name True (Some ErrPermission) stack1 of
                  (SkipDir, stack2) \<Rightarrow> (Continue, stack2)
                | (Failed err, stack2) \<Rightarrow> (Failed err, stack2)
                | (Continue, stack2) \<Rightarrow> walkEntries (Some (Dir l s es)) [] stack2))"
| "walkEntries dir [] stack = (Continue, stack)"
| "walkEntries dir ((name1, d1) # rest) stack =
     (case walkDir dir False name1 d1 stack of
        (SkipDir, stack1) \<Rightarrow> (Continue, stack1)
      | (Failed err, stack1) \<Rightarrow> (Failed err, stack1)
      | (Continue, stack1) \<Rightarrow> walkEntries dir rest stack1)"

text \<open>\<open>filepath.WalkDir\<close>: when the root cannot be stat'ed the callback gets the error
  and no entry; a final \<open>SkipDir\<close> is no error. The root's own name is never looked at
  by the callback, which returns at \<open>path == projectRoot\<close>.\<close>

definition WalkDir :: "node option \<Rightarrow> DetectedStack \<Rightarrow> error option \<times> DetectedStack" where
  "WalkDir root stack =
     (case (case root of
              None \<Rightarrow> walkFn None True ''.'' False (Some ErrNotExist) stack
            | Some d \<Rightarrow> walkDir None True ''.'' d stack) of
        (SkipDir, stack1) \<Rightarrow> (None, stack1)
      | (Continue, stack1) \<Rightarrow> (None, stack1)
      | (Failed err, stack1) \<Rightarrow> (Some err, stack1))"

definition DetectStack :: "node option \<Rightarrow> error + DetectedStack" where
  "DetectStack projectRoot =
     (let stack = emptyStack
      in case detectFromComposer projectRoot stack of
           (Some err, stack) \<Rightarrow> Inl err
         | (None, stack) \<Rightarrow>
        (case detectFromPackageJson projectRoot stack of
           (Some err, stack) \<Rightarrow> Inl err
         | (None, stack) \<Rightarrow>
        (case detectFromPackageLockJson projectRoot stack of
           (Some err, stack) \<Rightarrow> Inl err
         | (None, stack) \<Rightarrow>
        (case WalkDir projectRoot stack of
           (Some err, stack) \<Rightarrow> Inl err
         | (None, stack) \<Rightarrow> Inr stack))))"

section \<open>The template merger (main.go)\<close>

record Section =
  Heading :: string
  Text :: string
  Bullets :: "string list"

record Template =
  Title :: string
  Sections :: "Section list"

fun trimAll :: "string list \<Rightarrow> string list" where
  "trimAll [] = []"
| "trimAll (v # rest) =
     (let v = TrimSpace v in if v \<noteq> [] then v # trimAll rest else trimAll rest)"

text \<open>The loop of \<open>mergeBullets\<close> with its map \<open>seen\<close> and its result slice \<open>out\<close>.\<close>

fun bulletLoop :: "(string \<Rightarrow> bool) \<Rightarrow> string list \<Rightarrow> string list \<Rightarrow> string list" where
  "bulletLoop seen out [] = out"
| "bulletLoop seen out (v # rest) =
     (let v = TrimSpace v
      in if v = [] \<or> seen v then bulletLoop seen out rest
         else bulletLoop (seen(v := True)) (out @ [v]) rest)"

definition mergeBullets :: "string list \<Rightarrow> string list \<Rightarrow> string list" where
  "mergeBullets a b = bulletLoop (\<lambda>v. False) [] (a @ b)"

text \<open>The title loop of \<open>mergeTemplates\<close>: the first title that is not blank.\<close>

fun firstTitle :: "Template list \<Rightarrow> string" where
  "firstTitle [] = []"
| "firstTitle (t # ts) = (if TrimSpace (Title t) \<noteq> [] then Title t else firstTitle ts)"

text \<open>The body of the inner loop of \<open>mergeTemplates\<close> on one section \<open>s\<close>, with the slice
  \<open>merged\<close> and the map \<open>index\<close> from heading to position.\<close>

definition mergeSection ::
  "Section list \<times> (string \<rightharpoonup> nat) \<Rightarrow> Section \<Rightarrow> Section list \<times> (string \<rightharpoonup> nat)" where
  "mergeSection st s =
     (case st of (merged, index) \<Rightarrow>
        let h = TrimSpace (Heading s)
        in if h = [] then (merged, index)
           else (case index h of
                   Some idx \<Rightarrow>
                     let m = merged ! idx;
                         m = (if TrimSpace (Text s) \<noteq> []
                              then (if TrimSpace (Text m) = [] then m\<lparr>Text := Text s\<rparr>
                                    else if TrimSpace (Text m) \<noteq> TrimSpace (Text s)
                                    then m\<lparr>Text := TrimSpace (Text m) @ ''\<newline>\<newline>'' @ TrimSpace (Text s)\<rparr>
                                    else m)
                              else m);
                         m = m\<lparr>Bullets := mergeBullets (Bullets m) (Bullets s)\<rparr>
                     in (merged[idx := m], index)
                 | None \<Rightarrow>
                     let s = s\<lparr>Bullets := trimAll (Bullets s)\<rparr>
                     in (merged @ [s], index(h \<mapsto> length merged))))"

definition mergeTemplates :: "Template list \<Rightarrow> string list \<Rightarrow> string \<times> Section list" where
  "mergeTemplates templates sets =
     (let title = firstTitle templates;
          title = (if title = [] then ''Copilot instructions ('' @ Join sets '' + '' @ '')'' else title);
          (merged, index) = foldl (\<lambda>st t. foldl mergeSection st (Sections t)) ([], Map.empty) templates
      in (title, merged))"

subsection \<open>The merge as the specification words it\<close>

text \<open>The elements of a list in the order of their first occurrence, each once.\<close>

definition firstSeen :: "'a list \<Rightarrow> 'a list" where
  "firstSeen xs = rev (remdups (rev xs))"

text \<open>The free text of two sources under one heading: the first text that is not
  blank is kept, a later one that is not blank is appended after a blank line when its
  trimmed form differs from the trimmed text so far.\<close>

definition joinText :: "string \<Rightarrow> string \<Rightarrow> string" where
  "joinText t1 t2 =
     (if TrimSpace t2 = [] then t1
      else if TrimSpace t1 = [] then t2
      else if TrimSpace t1 = TrimSpace t2 then t1
      else TrimSpace t1 @ ''\<newline>\<newline>'' @ TrimSpace t2)"

text \<open>The section for the sources \<open>grp\<close> that share a heading, in their order: the
  heading as the first source spells it, the texts joined from the left, and the
  bullets: those of a single source trimmed with the blank ones dropped, those of
  several sources moreover reduced to their first occurrences.\<close>

definition sectionOf :: "Section list \<Rightarrow> Section" where
  "sectionOf grp =
     \<lparr>Heading = Heading (hd grp),
      Text = foldl joinText (Text (hd grp)) (map Text (tl grp)),
      Bullets = (if length grp = 1 then trimAll (Bullets (hd grp))
                 else firstSeen (trimAll (concat (map Bullets grp))))\<rparr>"

definition headingKey :: "Section \<Rightarrow> string" where
  "headingKey s = TrimSpace (Heading s)"

text \<open>The headings of the sources that are not blank, trimmed, in first-seen order, and
  the sources under one heading.\<close>

definition headingKeys :: "Section list \<Rightarrow> string list" where
  "headingKeys secs = firstSeen (filter (\<lambda>h. h \<noteq> []) (map headingKey secs))"

definition sectionsUnder :: "string \<Rightarrow> Section list \<Rightarrow> Section list" where
  "sectionsUnder h secs = filter (\<lambda>s. headingKey s = h) secs"

definition mergedByHeading :: "Section list \<Rightarrow> Section list" where
  "mergedByHeading secs = map (\<lambda>h. sectionOf (sectionsUnder h secs)) (headingKeys secs)"

text \<open>The invariant of the loop of \<open>mergeTemplates\<close> after the sources \<open>secs\<close>: the
  slice is the merge of \<open>secs\<close> by heading, and the map sends each heading to its
  position in the slice.\<close>

definition mergeInv :: "Section list \<Rightarrow> Section list \<times> (string \<rightharpoonup> nat) \<Rightarrow> bool" where
  "mergeInv secs st =
     (fst st = mergedByHeading secs
      \<and> (\<forall>h i. snd st h = Some i \<longleftrightarrow> (i < length (headingKeys secs) \<and> headingKeys secs ! i = h)))"

subsection \<open>Specification devices for the detector\<close>

text \<open>First writer wins between two stacks: every field set in the earlier one has the
  same value in the later one.\<close>

definition keeps :: "DetectedStack \<Rightarrow> DetectedStack \<Rightarrow> bool" where
  "keeps s s' =
     ((PHP s \<noteq> [] \<longrightarrow> PHP s' = PHP s) \<and> (Laravel s \<noteq> [] \<longrightarrow> Laravel s' = Laravel s)
      \<and> (Nuxt s \<noteq> [] \<longrightarrow> Nuxt s' = Nuxt s) \<and> (Vue s \<noteq> [] \<longrightarrow> Vue s' = Vue s)
      \<and> (NuxtUI s \<noteq> [] \<longrightarrow> NuxtUI s' = NuxtUI s))"

text \<open>A directory name the walk does not enter.\<close>

definition excluded :: "string \<Rightarrow> bool" where
  "excluded name = (HasPrefix name ''.'' \<or> ignoredDirs name)"

text \<open>The tree with every excluded directory below the root emptied.\<close>

fun prune :: "node \<Rightarrow> node"
and pruneEntries :: "(string \<times> node) list \<Rightarrow> (string \<times> node) list" where
  "prune (File fd) = File fd"
| "prune (Dir l s es) = Dir l s (pruneEntries es)"
| "pruneEntries [] = []"
| "pruneEntries ((name, d) # rest) =
     (name, if excluded name \<and> isDir d then Dir True True [] else prune d) # pruneEntries rest"

text \<open>A root-level marker fails: reading it gives an error other than not-exist, or
  its bytes do not decode.\<close>

definition markerFails :: "node option \<Rightarrow> string \<Rightarrow> (fileData \<Rightarrow> 'a option) \<Rightarrow> bool" where
  "markerFails dir name decode =
     (case ReadFile dir name of
        Inl err \<Rightarrow> \<not> IsNotExist err
      | Inr data \<Rightarrow> decode data = None)"

section \<open>Properties of the string primitives\<close>

lemma prefix_append_notin:
  assumes "prefix p (r @ c # t)" and "c \<notin> set p"
  shows "prefix p r"
proof -
  from assms(1) consider "prefix p r" | us where "p = r @ us" "prefix us (c # t)"
    by (auto simp: prefix_append)
  then show ?thesis
  proof cases
    case 1 then show ?thesis .
  next
    case 2
    with assms(2) have "us = []" by (cases us) auto
    with 2 show ?thesis by simp
  qed
qed

lemma leadLen_cases:
  "leadLen ps s = 0 \<or> (\<exists>p \<in> set ps. p \<noteq> [] \<and> prefix p s \<and> leadLen ps s = length p)"
  by (auto simp: leadLen_def find_Some_iff split: option.splits)

lemma stripLead_barrier:
  assumes "\<forall>p \<in> set ps. c \<notin> set p"
  shows "\<exists>r'. suffix r' r \<and> stripLead ps (r @ c # t) = r' @ c # t"
proof (induction "length r" arbitrary: r rule: less_induct)
  case less
  show ?case
  proof (cases "leadLen ps (r @ c # t) = 0")
    case True
    then have "stripLead ps (r @ c # t) = r @ c # t" by (simp add: stripLead.simps)
    then show ?thesis by blast
  next
    case False
    then obtain p where p: "p \<in> set ps" "p \<noteq> []" "prefix p (r @ c # t)" "leadLen ps (r @ c # t) = length p"
      using leadLen_cases[of ps "r @ c # t"] by auto
    with assms have "prefix p r" by (auto intro: prefix_append_notin)
    then obtain q where q: "r = p @ q" by (auto simp: prefix_def)
    with p have "length q < length r" by simp
    from less[OF this] obtain r' where r': "suffix r' q" "stripLead ps (q @ c # t) = r' @ c # t" by blast
    have "stripLead ps (r @ c # t) = stripLead ps (q @ c # t)"
      using p False q by (subst stripLead.simps) simp
    moreover have "suffix r' r" using r'(1) q by (simp add: suffix_appendI)
    ultimately show ?thesis using r'(2) by auto
  qed
qed

lemma copyDigits_takeWhile: "copyDigits b s = b @ takeWhile isDigitOrDot s"
  by (induction s arbitrary: b) auto

lemma splitAcc_skip: "c \<notin> set a \<Longrightarrow> splitAcc c cs acc (a @ r) = splitAcc c cs (rev a @ acc) r"
  by (induction a arbitrary: acc) auto

lemma splitAcc_hd: "\<exists>p. prefix p s \<and> hd (splitAcc c cs acc s) = rev acc @ p"
proof (induction s arbitrary: acc)
  case Nil
  then show ?case by simp
next
  case (Cons x xs)
  show ?case
  proof (cases "prefix (c # cs) (x # xs)")
    case True
    then have "hd (splitAcc c cs acc (x # xs)) = rev acc @ []" by simp
    then show ?thesis by (metis Nil_prefix)
  next
    case False
    from Cons[of "x # acc"] obtain p where "prefix p xs" "hd (splitAcc c cs (x # acc) xs) = rev (x # acc) @ p" by blast
    with False have "prefix (x # p) (x # xs) \<and> hd (splitAcc c cs acc (x # xs)) = rev acc @ (x # p)" by simp
    then show ?thesis by blast
  qed
qed

lemma splitAcc_nonempty: "splitAcc c cs acc s \<noteq> []"
  by (induction s arbitrary: acc) auto

lemma Split_nonempty: "sep \<noteq> [] \<Longrightarrow> Split s sep \<noteq> []"
  by (cases sep) (simp_all add: Split_def splitAcc_nonempty)

lemma Split_hd_barrier:
  assumes "c \<notin> set a"
  shows "\<exists>p. prefix p r \<and> hd (Split (a @ r) (c # cs)) = a @ p"
  using splitAcc_hd[of r c cs "rev a"] assms by (auto simp: Split_def splitAcc_skip)

lemma digit_not_space_byte:
  assumes "isDigitOrDot c"
  shows "\<forall>p \<in> set (map rev spaceRunes). c \<notin> set p" and "\<forall>p \<in> set spaceRunes. c \<notin> set p"
  using assms by (auto simp: isDigitOrDot_def spaceRunes_def less_eq_char_def)

lemma leadLen_plain:
  assumes "\<forall>p \<in> set ps. x \<notin> set p"
  shows "leadLen ps (x # s) = 0"
proof -
  have "\<not> (p \<noteq> [] \<and> prefix p (x # s))" if "p \<in> set ps" for p
  proof (cases p)
    case Nil then show ?thesis by simp
  next
    case (Cons y ys)
    with that assms have "x \<noteq> y" by auto
    with Cons show ?thesis by simp
  qed
  then have "find (\<lambda>p. p \<noteq> [] \<and> prefix p (x # s)) ps = None"
    by (simp add: find_None_iff)
  then show ?thesis by (simp add: leadLen_def)
qed

lemma op_not_space_byte:
  assumes "c \<in> set ''^~><=''"
  shows "\<forall>p \<in> set spaceRunes. c \<notin> set p"
  using assms by (auto simp: spaceRunes_def)

lemma TrimSpace_barrier:
  assumes a: "a \<noteq> []" and h: "\<forall>p \<in> set spaceRunes. hd a \<notin> set p"
    and l: "\<forall>p \<in> set spaceRunes. last a \<notin> set p"
  shows "\<exists>r'. prefix r' r \<and> TrimSpace (a @ r) = a @ r'"
proof -
  from a obtain x xs where x: "a = x # xs" by (cases a) auto
  have 1: "stripLead spaceRunes (a @ r) = a @ r"
    using h x by (subst stripLead.simps) (simp add: leadLen_plain)
  have l': "\<forall>p \<in> set (map rev spaceRunes). last a \<notin> set p" using l by simp
  have "rev (a @ r) = rev r @ last a # rev (butlast a)"
    using a by (metis append_butlast_last_id rev_append rev.simps(2) append_assoc append_Cons append_Nil rev_rev_ident)
  moreover from stripLead_barrier[OF l', of "rev r" "rev (butlast a)"]
  obtain q where q: "suffix q (rev r)" "stripLead (map rev spaceRunes) (rev r @ last a # rev (butlast a)) = q @ last a # rev (butlast a)"
    by blast
  ultimately have "TrimSpace (a @ r) = rev (q @ last a # rev (butlast a))"
    unfolding TrimSpace_def 1 by (simp only:)
  also have "\<dots> = a @ rev q" using a by simp
  finally have "TrimSpace (a @ r) = a @ rev q" .
  moreover have "prefix (rev q) r" using q(1) by (metis suffix_to_prefix rev_rev_ident)
  ultimately show ?thesis by blast
qed

lemma normalizeVersion_shape:
  assumes ops: "set ops \<subseteq> set ''^~><=''"
    and d: "d \<noteq> []" "\<forall>c \<in> set d. isDigitOrDot c"
    and rest: "rest = [] \<or> \<not> isDigitOrDot (hd rest)"
  shows "normalizeVersion (ops @ d @ rest) = d"
proof -
  let ?a = "ops @ d"
  have a: "?a \<noteq> []" using d by simp
  have hd_a: "hd ?a \<in> set ops \<or> isDigitOrDot (hd ?a)"
    using d by (cases ops) (auto simp: hd_append)
  have h: "\<forall>p \<in> set spaceRunes. hd ?a \<notin> set p"
    using hd_a ops digit_not_space_byte(2) op_not_space_byte by blast
  have "last ?a = last d" using d by simp
  then have l: "\<forall>p \<in> set spaceRunes. last ?a \<notin> set p"
    using d digit_not_space_byte(2) by (metis last_in_set)
  from TrimSpace_barrier[OF a h l, of rest] obtain r1 where
    r1: "prefix r1 rest" "TrimSpace (ops @ d @ rest) = ?a @ r1" by auto
  have nobar: "CHR ''|'' \<notin> set ?a" using ops d by (auto simp: isDigitOrDot_def less_eq_char_def)
  from Split_hd_barrier[OF nobar, of r1 "''|''"] obtain r2 where
    r2: "prefix r2 r1" "hd (Split (?a @ r1) ''||'') = ?a @ r2" by auto
  have nosp: "CHR '' '' \<notin> set ?a" using ops d by (auto simp: isDigitOrDot_def less_eq_char_def)
  from Split_hd_barrier[OF nosp, of r2 "[]"] obtain r3 where
    r3: "prefix r3 r2" "hd (Split (?a @ r2) '' '') = ?a @ r3" by auto
  have "hd d \<notin> set ''^~><= ''" using d by (cases d) (auto simp: isDigitOrDot_def less_eq_char_def)
  then have tl: "TrimLeft (?a @ r3) ''^~><= '' = d @ r3"
    using ops d unfolding TrimLeft_def
    by (cases d) (auto simp: dropWhile_append3 dropWhile_append)
  have p3: "prefix r3 rest" using r1 r2 r3 by (meson prefix_order.trans)
  have "r3 = [] \<or> \<not> isDigitOrDot (hd r3)"
    using rest p3 by (cases r3; cases rest) auto
  then have cd: "copyDigits [] (d @ r3) = d"
    using d by (cases r3) (auto simp: copyDigits_takeWhile takeWhile_append2 takeWhile_append)
  show ?thesis
    using r1 r2 r3 tl cd a by (simp add: normalizeVersion_def Let_def)
qed

lemma normalizeVersion_digits: "\<forall>c \<in> set (normalizeVersion v). isDigitOrDot c"
  by (auto simp: normalizeVersion_def Let_def copyDigits_takeWhile dest: set_takeWhileD)

lemma ruleExists_iff: "ruleExists fs ident \<longleftrightarrow> map_of fs (ident @ ''.md'') \<noteq> None"
  by (auto simp: ruleExists_def Get_def split: option.splits)


section \<open>Version normalisation\<close>

text \<open>
  Claim C4. \<open>normalizeVersion\<close> applied to \<open>^8.2.1\<close>, to \<open>>=8.2 <9\<close> and to \<open>8.2.x\<close>
  gives a string whose first dot-delimited part (major) is \<open>8\<close> and whose second
  (minor) is \<open>2\<close>. In general the result holds ASCII digits and dots only, and on an
  input made of leading range operators \<open>ops\<close>, a non-empty run \<open>d\<close> of digits and dots
  and a rest that is empty or starts with any other character (a space, the bar of
  \<open>||\<close>, a letter), the result is exactly \<open>d\<close>: the operators are stripped, and all from
  the first character that is neither a digit nor a dot is discarded.
\<close>

theorem normalizeVersion_major_minor:
  "majorMinor (Split (normalizeVersion ''^8.2.1'') ''.'') = (''8'', ''2'')
   \<and> majorMinor (Split (normalizeVersion ''>=8.2 <9'') ''.'') = (''8'', ''2'')
   \<and> majorMinor (Split (normalizeVersion ''8.2.x'') ''.'') = (''8'', ''2'')
   \<and> (\<forall>v. \<forall>c \<in> set (normalizeVersion v). isDigitOrDot c)
   \<and> (\<forall>ops d rest.
         set ops \<subseteq> set ''^~><='' \<and> d \<noteq> [] \<and> (\<forall>c \<in> set d. isDigitOrDot c)
         \<and> (rest = [] \<or> \<not> isDigitOrDot (hd rest))
         \<longrightarrow> normalizeVersion (ops @ d @ rest) = d)"
proof -
  have 1: "majorMinor (Split (normalizeVersion ''^8.2.1'') ''.'') = (''8'', ''2'')" by code_simp
  have 2: "majorMinor (Split (normalizeVersion ''>=8.2 <9'') ''.'') = (''8'', ''2'')" by code_simp
  have 3: "majorMinor (Split (normalizeVersion ''8.2.x'') ''.'') = (''8'', ''2'')" by code_simp
  show ?thesis
    using 1 2 3 normalizeVersion_digits normalizeVersion_shape by blast
qed

theorem normalizeVersion_major_minor_witness:
  "normalizeVersion (''>='' @ ''8.2'' @ ''||9.0'') = ''8.2''
   \<and> normalizeVersion (''~'' @ ''10.4.'' @ ''x-dev'') = ''10.4.''"
proof -
  have a: "\<forall>c \<in> set ''8.2''. isDigitOrDot c" "\<forall>c \<in> set ''10.4.''. isDigitOrDot c"
    by (simp_all add: isDigitOrDot_def less_eq_char_def)
  have b: "\<not> isDigitOrDot (hd ''||9.0'')" "\<not> isDigitOrDot (hd ''x-dev'')"
    by (simp_all add: isDigitOrDot_def less_eq_char_def)
  have c: "set ''>='' \<subseteq> set ''^~><=''" "set ''~'' \<subseteq> set ''^~><=''" by simp_all
  from normalizeVersion_major_minor
  have g: "\<And>ops d rest. set ops \<subseteq> set ''^~><='' \<Longrightarrow> d \<noteq> [] \<Longrightarrow> (\<forall>c \<in> set d. isDigitOrDot c)
         \<Longrightarrow> (rest = [] \<or> \<not> isDigitOrDot (hd rest)) \<Longrightarrow> normalizeVersion (ops @ d @ rest) = d"
    by blast
  show ?thesis
    using g[OF c(1) _ a(1), of "''||9.0''"] g[OF c(2) _ a(2), of "''x-dev''"] b by simp
qed


section \<open>Rule resolution\<close>

text \<open>
  Claim C2, as the code has it. For a technology whose version is not empty and
  normalises to a major and a minor part (both non-empty, as \<open>5\<close> and \<open>3\<close>), when rule
  content exists at the base, at the major and at the major.minor granularity,
  \<open>addRulesFor\<close> appends exactly these three identifiers, pairwise distinct, in the order
  base, major.minor, major.
\<close>

theorem addRulesFor_cumulative:
  assumes "version \<noteq> []"
    and "majorMinor (Split (normalizeVersion version) ''.'') = (major, minor)"
    and "major \<noteq> []" and "minor \<noteq> []"
    and "ruleExists fs (name @ ''/general'')"
    and "ruleExists fs (name @ ''/'' @ major @ ''/general'')"
    and "ruleExists fs (name @ ''/'' @ major @ ''.'' @ minor @ ''/general'')"
  shows "addRulesFor fs ids name version =
           ids @ [name @ ''/general'',
                  name @ ''/'' @ major @ ''.'' @ minor @ ''/general'',
                  name @ ''/'' @ major @ ''/general'']
         \<and> distinct [name @ ''/general'',
                     name @ ''/'' @ major @ ''.'' @ minor @ ''/general'',
                     name @ ''/'' @ major @ ''/general'']"
proof -
  have norm: "normalizeVersion version \<noteq> []"
  proof
    assume "normalizeVersion version = []"
    with assms(2) have "major = []" by (simp add: Split_def)
    with assms(3) show False by simp
  qed
  have 1: "addRulesFor fs ids name version =
           ids @ [name @ ''/general'',
                  name @ ''/'' @ major @ ''.'' @ minor @ ''/general'',
                  name @ ''/'' @ major @ ''/general'']"
    using assms norm by (simp add: addRulesFor_def addIfExists_def Let_def)
  have "length (name @ ''/general'') \<noteq> length (name @ ''/'' @ major @ ''.'' @ minor @ ''/general'')"
    and "length (name @ ''/general'') \<noteq> length (name @ ''/'' @ major @ ''/general'')"
    by simp_all
  then have 2: "name @ ''/general'' \<noteq> name @ ''/'' @ major @ ''.'' @ minor @ ''/general''"
    and 3: "name @ ''/general'' \<noteq> name @ ''/'' @ major @ ''/general''"
    by metis+
  have 4: "name @ ''/'' @ major @ ''.'' @ minor @ ''/general'' \<noteq> name @ ''/'' @ major @ ''/general''"
    by simp
  show ?thesis using 1 2 3 4 by simp
qed

theorem addRulesFor_cumulative_witness:
  "addRulesFor [(''php/general.md'', ''A''), (''php/5/general.md'', ''B''), (''php/5.3/general.md'', ''C'')]
     [] ''php'' ''5.3'' = [''php/general'', ''php/5.3/general'', ''php/5/general'']"
proof -
  have v: "''5.3'' \<noteq> []" by simp
  have mm: "majorMinor (Split (normalizeVersion ''5.3'') ''.'') = (''5'', ''3'')" by code_simp
  have e1: "ruleExists [(''php/general.md'', ''A''), (''php/5/general.md'', ''B''), (''php/5.3/general.md'', ''C'')] (''php'' @ ''/general'')"
    by (simp add: ruleExists_def Get_def)
  have e2: "ruleExists [(''php/general.md'', ''A''), (''php/5/general.md'', ''B''), (''php/5.3/general.md'', ''C'')] (''php'' @ ''/'' @ ''5'' @ ''/general'')"
    by (simp add: ruleExists_def Get_def)
  have e3: "ruleExists [(''php/general.md'', ''A''), (''php/5/general.md'', ''B''), (''php/5.3/general.md'', ''C'')] (''php'' @ ''/'' @ ''5'' @ ''.'' @ ''3'' @ ''/general'')"
    by (simp add: ruleExists_def Get_def)
  show ?thesis
    using addRulesFor_cumulative[OF v mm _ _ e1 e2 e3, of "[]"] by simp
qed

text \<open>
  Claim C2 as stated fails. The order base, major, major.minor is not the one the code
  produces: for version
  \<open>5.3\<close> with content at all three granularities the list is not
  base, \<open>5\<close>, \<open>5.3\<close>.
\<close>

theorem addRulesFor_order_counterexample:
  "addRulesFor [(''php/general.md'', ''A''), (''php/5/general.md'', ''B''), (''php/5.3/general.md'', ''C'')]
     [] ''php'' ''5.3'' \<noteq> [''php/general'', ''php/5/general'', ''php/5.3/general'']"
  by code_simp

text \<open>
  The embedded-rules version of \<open>addAgentFor\<close> resolves as the specification has it:
  for a technology with a non-empty version it appends the first of the candidates
  major.minor agent, major agent, base agent for which content exists, and nothing
  when none exists: at most one agent identifier per technology.
\<close>

theorem addAgentFor_first_existing:
  assumes "version \<noteq> []"
    and "majorMinor (Split (normalizeVersion version) ''.'') = (major, minor)"
  shows "addAgentFor fs files label name version =
           files @ (case find (ruleExists fs) (agentCandidates name major minor) of
                      None \<Rightarrow> []
                    | Some ident \<Rightarrow> [\<lparr>Label = label, ID = ident\<rparr>])
         \<and> length (addAgentFor fs files label name version) \<le> length files + 1
         \<and> ((\<forall>ident \<in> set (agentCandidates name major minor). \<not> ruleExists fs ident)
              \<longrightarrow> addAgentFor fs files label name version = files)"
proof -
  have 1: "addAgentFor fs files label name version =
           files @ (case find (ruleExists fs) (agentCandidates name major minor) of
                      None \<Rightarrow> []
                    | Some ident \<Rightarrow> [\<lparr>Label = label, ID = ident\<rparr>])"
    using assms by (simp add: addAgentFor_def agentCandidates_def Let_def)
  have 2: "length (addAgentFor fs files label name version) \<le> length files + 1"
    unfolding 1 by (simp split: option.splits)
  have 3: "addAgentFor fs files label name version = files"
    if "\<forall>ident \<in> set (agentCandidates name major minor). \<not> ruleExists fs ident"
  proof -
    from that have "find (ruleExists fs) (agentCandidates name major minor) = None"
      by (simp add: find_None_iff)
    then show ?thesis unfolding 1 by simp
  qed
  show ?thesis using 1 2 3 by blast
qed

theorem addAgentFor_first_existing_witness:
  "addAgentFor [(''php/agent.md'', ''A''), (''php/5/agent.md'', ''B''), (''php/5.3/agent.md'', ''C'')]
     [] ''PHP'' ''php'' ''5.3'' = [\<lparr>Label = ''PHP'', ID = ''php/5.3/agent''\<rparr>]
   \<and> addAgentFor [(''php/agent.md'', ''A''), (''php/5/agent.md'', ''B'')]
     [] ''PHP'' ''php'' ''5.3'' = [\<lparr>Label = ''PHP'', ID = ''php/5/agent''\<rparr>]
   \<and> addAgentFor [(''vue/general.md'', ''A'')] [] ''PHP'' ''php'' ''5.3'' = []"
proof -
  have v: "''5.3'' \<noteq> []" by simp
  have mm: "majorMinor (Split (normalizeVersion ''5.3'') ''.'') = (''5'', ''3'')" by code_simp
  note t = addAgentFor_first_existing[OF v mm, of _ "[]" "''PHP''" "''php''"]
  show ?thesis
    using t[of "[(''php/agent.md'', ''A''), (''php/5/agent.md'', ''B''), (''php/5.3/agent.md'', ''C'')]"]
      t[of "[(''php/agent.md'', ''A''), (''php/5/agent.md'', ''B'')]"]
      t[of "[(''vue/general.md'', ''A'')]"]
    by (simp add: agentCandidates_def ruleExists_def Get_def)
qed

text \<open>
  Claim C3, at the file-based version of \<open>addAgentFor\<close> (src/cmd/generate.go). Its
  comments announce a search (try major.minor first, fall back to major, default to
  base), but it never looks whether a file exists: for every non-empty version it
  appends exactly one path, chosen by the shape of the version alone, so the list is
  never left unchanged and a coarser granularity that exists is never reached. For
  version \<open>5.3\<close> the path appended is the major.minor one, whatever the rules directory
  holds.
\<close>

theorem addAgentFor_f_never_probes:
  "(version \<noteq> [] \<longrightarrow> length (addAgentFor_f Clean files label name version) = length files + 1)
   \<and> addAgentFor_f Clean [] ''PHP'' ''php'' ''5.3''
       = [\<lparr>Label_f = ''PHP'',
           Path = filepathJoin Clean [filepathJoin Clean [''rules'', ''php''], ''5.3'', ''agent.md'']\<rparr>]"
proof -
  have 1: "length (addAgentFor_f Clean files label name version) = length files + 1"
    if "version \<noteq> []"
  proof -
    obtain major minor where mm: "majorMinor (Split (normalizeVersion version) ''.'') = (major, minor)"
      by (cases "majorMinor (Split (normalizeVersion version) ''.'')")
    show ?thesis using that by (simp add: addAgentFor_f_def Let_def mm)
  qed
  have mm53: "majorMinor (Split (normalizeVersion ''5.3'') ''.'') = (''5'', ''3'')" by code_simp
  have 2: "addAgentFor_f Clean [] ''PHP'' ''php'' ''5.3''
       = [\<lparr>Label_f = ''PHP'',
           Path = filepathJoin Clean [filepathJoin Clean [''rules'', ''php''], ''5.3'', ''agent.md'']\<rparr>]"
    by (simp add: addAgentFor_f_def Let_def mm53)
  show ?thesis using 1 2 by blast
qed

theorem addAgentFor_f_never_probes_witness:
  "addAgentFor_f (\<lambda>path. path) [] ''PHP'' ''php'' ''5.3''
     = [\<lparr>Label_f = ''PHP'', Path = ''rules/php/5.3/agent.md''\<rparr>]
   \<and> length (addAgentFor_f (\<lambda>path. path) [] ''PHP'' ''php'' ''5.3'') = 1"
proof -
  have v: "''5.3'' \<noteq> []" by simp
  have j: "filepathJoin (\<lambda>path. path) [filepathJoin (\<lambda>path. path) [''rules'', ''php''], ''5.3'', ''agent.md'']
             = ''rules/php/5.3/agent.md''"
    by (simp add: filepathJoin_def)
  note inst = addAgentFor_f_never_probes[where Clean = "\<lambda>path. path" and files = "[]"
      and label = "''PHP''" and name = "''php''" and version = "''5.3''"]
  from inst v have 1: "length (addAgentFor_f (\<lambda>path. path) [] ''PHP'' ''php'' ''5.3'') = length ([] :: agentFile_f list) + 1"
    by blast
  from inst have 2: "addAgentFor_f (\<lambda>path. path) [] ''PHP'' ''php'' ''5.3''
       = [\<lparr>Label_f = ''PHP'',
           Path = filepathJoin (\<lambda>path. path) [filepathJoin (\<lambda>path. path) [''rules'', ''php''], ''5.3'', ''agent.md'']\<rparr>]"
    by blast
  from 1 2 show ?thesis unfolding j by simp
qed

section \<open>Missing rule content\<close>

lemma sublist_mergeRule: "sublist x b \<Longrightarrow> sublist x (mergeRule fs b ident)"
  by (auto simp: mergeRule_def Let_def sublist_append split: sum.splits)

lemma sublist_foldl_mergeRule: "sublist x b \<Longrightarrow> sublist x (foldl (mergeRule fs) b ids)"
  by (induction ids arbitrary: b) (auto intro: sublist_mergeRule)

lemma mergeRule_missing:
  assumes "\<not> ruleExists fs ident"
  shows "sublist (''<!-- Missing instructions for '' @ deriveRuleLabel ident
                   @ '' (expected file: rules/'' @ ident @ ''.md) -->'') (mergeRule fs b ident)"
proof -
  let ?p = "''<!-- Missing instructions for '' @ deriveRuleLabel ident
                   @ '' (expected file: rules/'' @ ident @ ''.md) -->''"
  from assms obtain b' where "mergeRule fs b ident = b' @ ?p"
    by (auto simp: mergeRule_def ruleExists_def Let_def split: sum.splits)
  then show ?thesis by (metis sublist_appendI append_Nil2)
qed

lemma foldl_mergeRule_piece:
  assumes "ident \<in> set ids" and "\<And>b. sublist p (mergeRule fs b ident)"
  shows "sublist p (foldl (mergeRule fs) b ids)"
  using assms(1)
proof (induction ids arbitrary: b)
  case Nil
  then show ?case by simp
next
  case (Cons a ids)
  show ?case
  proof (cases "ident = a")
    case True
    have "sublist p (foldl (mergeRule fs) (mergeRule fs b a) ids)"
      using assms(2) True by (intro sublist_foldl_mergeRule) simp
    then show ?thesis by simp
  next
    case False
    with Cons.prems have "ident \<in> set ids" by simp
    from Cons.IH[OF this] show ?thesis by simp
  qed
qed

lemma sublist_mergeFile: "sublist x b \<Longrightarrow> sublist x (mergeFile Clean disk b f)"
  by (auto simp: mergeFile_def Let_def sublist_append split: sum.splits)

lemma sublist_foldl_mergeFile: "sublist x b \<Longrightarrow> sublist x (foldl (mergeFile Clean disk) b fs)"
  by (induction fs arbitrary: b) (auto intro: sublist_mergeFile)

lemma mergeFile_missing:
  assumes "disk f = Inl err"
  shows "sublist (''<!-- Missing instructions for '' @ deriveRuleNameFromPath Clean f
                   @ '' (expected file: '' @ f @ '') -->'') (mergeFile Clean disk b f)"
proof -
  let ?p = "''<!-- Missing instructions for '' @ deriveRuleNameFromPath Clean f
                   @ '' (expected file: '' @ f @ '') -->''"
  from assms obtain b' where "mergeFile Clean disk b f = b' @ ?p"
    by (auto simp: mergeFile_def Let_def)
  then show ?thesis by (metis sublist_appendI append_Nil2)
qed

lemma foldl_mergeFile_piece:
  assumes "f \<in> set files" and "\<And>b. sublist p (mergeFile Clean disk b f)"
  shows "sublist p (foldl (mergeFile Clean disk) b files)"
  using assms(1)
proof (induction files arbitrary: b)
  case Nil
  then show ?case by simp
next
  case (Cons a files)
  show ?case
  proof (cases "f = a")
    case True
    have "sublist p (foldl (mergeFile Clean disk) (mergeFile Clean disk b a) files)"
      using assms(2) True by (intro sublist_foldl_mergeFile) simp
    then show ?thesis by simp
  next
    case False
    with Cons.prems have "f \<in> set files" by simp
    from Cons.IH[OF this] show ?thesis by simp
  qed
qed

lemma sublist_agentLoop: "sublist x b \<Longrightarrow> sublist x (agentLoop fs b i files)"
proof (induction files arbitrary: b i)
  case Nil
  then show ?case by simp
next
  case (Cons af files)
  then show ?case
    by (auto simp: Let_def sublist_append split: sum.splits intro!: Cons.IH)
qed

lemma agentLoop_step:
  "agentLoop fs b i (af # files) =
     agentLoop fs ((if i > 0 then b @ separator else b) @ ''## '' @ Label af @ ''\<newline>\<newline>''
        @ (case Get fs (ID af) of
             Inl err \<Rightarrow> ''<!-- Missing agent instructions for '' @ Label af
                          @ '' (expected file: rules/'' @ ID af @ ''.md) -->''
           | Inr data \<Rightarrow> data)) (i + 1) files"
  by (simp add: Let_def split: sum.splits)

lemma agentLoop_placeholder:
  assumes "af \<in> set files" and "\<not> ruleExists fs (ID af)"
  shows "sublist (''## '' @ Label af @ ''\<newline>\<newline>'' @ ''<!-- Missing agent instructions for '' @ Label af
                   @ '' (expected file: rules/'' @ ID af @ ''.md) -->'')
           (agentLoop fs b i files)"
  using assms(1)
proof (induction files arbitrary: b i)
  case Nil
  then show ?case by simp
next
  case (Cons a files)
  show ?case
  proof (cases "af = a")
    case True
    let ?p = "''## '' @ Label af @ ''\<newline>\<newline>'' @ ''<!-- Missing agent instructions for '' @ Label af
                   @ '' (expected file: rules/'' @ ID af @ ''.md) -->''"
    from assms(2) obtain err where e: "Get fs (ID af) = Inl err"
      by (auto simp: ruleExists_def split: sum.splits)
    have "sublist ?p ((if i > 0 then b @ separator else b) @ ?p)"
      by (metis sublist_appendI append_Nil2)
    then have "sublist ?p (agentLoop fs ((if i > 0 then b @ separator else b) @ ?p) (i + 1) files)"
      by (rule sublist_agentLoop)
    moreover have "agentLoop fs b i (a # files)
        = agentLoop fs ((if i > 0 then b @ separator else b) @ ?p) (i + 1) files"
      unfolding agentLoop_step using True e by simp
    ultimately show ?thesis by (simp only:)
  next
    case False
    with Cons.prems have "af \<in> set files" by simp
    from Cons.IH[OF this] show ?thesis
      unfolding agentLoop_step .
  qed
qed

text \<open>
  Claim C5. Missing rule content is never fatal. For every list of rule identifiers
  \<open>loadAndMergeRules\<close> returns no error, and so does the file-based
  \<open>loadAndMergeFiles\<close> for every list of paths; for each identifier whose content cannot
  be loaded the merged text contains an HTML comment that names the rule and the storage
  key \<open>rules/<id>.md\<close> (the path itself in the file-based version). The agent merge
  \<open>buildAgentContent\<close> returns a text in which each agent identifier without content has
  its heading followed by such a comment.
\<close>

theorem missing_rule_never_fatal:
  "snd (loadAndMergeRules fs ids) = None
   \<and> (\<forall>ident \<in> set ids. \<not> ruleExists fs ident \<longrightarrow>
         sublist (''<!-- Missing instructions for '' @ deriveRuleLabel ident
                    @ '' (expected file: rules/'' @ ident @ ''.md) -->'')
                 (fst (loadAndMergeRules fs ids)))
   \<and> snd (loadAndMergeFiles Clean disk paths) = None
   \<and> (\<forall>f \<in> set paths. (\<exists>err. disk f = Inl err) \<longrightarrow>
         sublist (''<!-- Missing instructions for '' @ deriveRuleNameFromPath Clean f
                    @ '' (expected file: '' @ f @ '') -->'')
                 (fst (loadAndMergeFiles Clean disk paths)))
   \<and> (\<forall>af \<in> set files. \<not> ruleExists fs (ID af) \<longrightarrow>
         sublist (''## '' @ Label af @ ''\<newline>\<newline>'' @ ''<!-- Missing agent instructions for '' @ Label af
                    @ '' (expected file: rules/'' @ ID af @ ''.md) -->'')
                 (buildAgentContent fs files))"
proof -
  have 1: "snd (loadAndMergeRules fs ids) = None" by (simp add: loadAndMergeRules_def)
  have 2: "sublist (''<!-- Missing instructions for '' @ deriveRuleLabel ident
                    @ '' (expected file: rules/'' @ ident @ ''.md) -->'')
                 (fst (loadAndMergeRules fs ids))"
    if "ident \<in> set ids" "\<not> ruleExists fs ident" for ident
    unfolding loadAndMergeRules_def fst_conv
    using that(1) mergeRule_missing[OF that(2)] by (rule foldl_mergeRule_piece)
  have 3: "snd (loadAndMergeFiles Clean disk paths) = None" by (simp add: loadAndMergeFiles_def)
  have 4: "sublist (''<!-- Missing instructions for '' @ deriveRuleNameFromPath Clean f
                    @ '' (expected file: '' @ f @ '') -->'')
                 (fst (loadAndMergeFiles Clean disk paths))"
    if "f \<in> set paths" "disk f = Inl err" for f err
    unfolding loadAndMergeFiles_def fst_conv
    using that(1) mergeFile_missing[of disk f err Clean, OF that(2)] by (rule foldl_mergeFile_piece)
  have 5: "sublist (''## '' @ Label af @ ''\<newline>\<newline>'' @ ''<!-- Missing agent instructions for '' @ Label af
                    @ '' (expected file: rules/'' @ ID af @ ''.md) -->'')
                 (buildAgentContent fs files)"
    if "af \<in> set files" "\<not> ruleExists fs (ID af)" for af
    unfolding buildAgentContent_def using that by (rule agentLoop_placeholder)
  show ?thesis using 1 2 3 4 5 by blast
qed

theorem missing_rule_never_fatal_witness:
  "loadAndMergeRules [(''php/general.md'', ''Use PHP.'')] [''php/general'', ''vue/3/general'']
     = (''Use PHP.\<newline>\<newline>---\<newline>\<newline><!-- Missing instructions for vue 3 (expected file: rules/vue/3/general.md) -->'', None)
   \<and> sublist ''<!-- Missing instructions for vue 3 (expected file: rules/vue/3/general.md) -->''
        (fst (loadAndMergeRules [(''php/general.md'', ''Use PHP.'')] [''php/general'', ''vue/3/general'']))
   \<and> sublist ''<!-- Missing instructions for vue general (expected file: rules/vue/general.md) -->''
        (fst (loadAndMergeFiles (\<lambda>path. path)
                (\<lambda>f. if f = ''rules/php/general.md'' then Inr ''Use PHP.'' else Inl ErrNotExist)
                [''rules/php/general.md'', ''rules/vue/general.md'']))
   \<and> sublist ''## Vue\<newline>\<newline><!-- Missing agent instructions for Vue (expected file: rules/vue/agent.md) -->''
        (buildAgentContent [(''php/general.md'', ''Use PHP.'')] [\<lparr>Label = ''Vue'', ID = ''vue/agent''\<rparr>])"
proof -
  have e: "\<not> ruleExists [(''php/general.md'', ''Use PHP.'')] ''vue/3/general''"
    "\<not> ruleExists [(''php/general.md'', ''Use PHP.'')] (ID \<lparr>Label = ''Vue'', ID = ''vue/agent''\<rparr>)"
    by (simp_all add: ruleExists_def Get_def)
  have l: "deriveRuleLabel ''vue/3/general'' = ''vue 3''" by code_simp
  have n: "deriveRuleNameFromPath (\<lambda>path. path) ''rules/vue/general.md'' = ''vue general''" by code_simp
  have v: "loadAndMergeRules [(''php/general.md'', ''Use PHP.'')] [''php/general'', ''vue/3/general'']
     = (''Use PHP.\<newline>\<newline>---\<newline>\<newline><!-- Missing instructions for vue 3 (expected file: rules/vue/3/general.md) -->'', None)"
    by code_simp
  show ?thesis
    using missing_rule_never_fatal[where fs = "[(''php/general.md'', ''Use PHP.'')]"
        and ids = "[''php/general'', ''vue/3/general'']"
        and Clean = "\<lambda>path. path"
        and disk = "\<lambda>f. if f = ''rules/php/general.md'' then Inr ''Use PHP.'' else Inl ErrNotExist"
        and paths = "[''rules/php/general.md'', ''rules/vue/general.md'']"
        and files = "[\<lparr>Label = ''Vue'', ID = ''vue/agent''\<rparr>]"] e l n v
    by simp
qed


section \<open>Rendering is repeatable\<close>

lemma Ext_md: "Ext (x @ ''.md'') = ''.md''"
  by (simp add: Ext_def)

lemma ne_set_nonempty: "x \<in> set xs \<Longrightarrow> xs \<noteq> []"
  by auto

lemma List_nonempty:
  assumes "ruleExists fs ident"
  shows "\<exists>list. List fs = Inr list \<and> list \<noteq> []"
proof -
  from assms obtain data where "map_of fs (ident @ ''.md'') = Some data"
    by (auto simp: ruleExists_iff)
  then have "ident @ ''.md'' \<in> set (map fst fs)"
    by (metis map_of_SomeD set_zip_leftD zip_map_fst_snd)
  then have "ident @ ''.md'' \<in> set (filter (\<lambda>path. Ext path = ''.md'') (map fst fs))"
    by (simp add: Ext_md)
  then have "TrimSuffix (ident @ ''.md'') ''.md''
      \<in> set (sort (map (\<lambda>path. TrimSuffix path ''.md'')
                 (filter (\<lambda>path. Ext path = ''.md'') (map fst fs))))"
    unfolding set_sort set_map by (rule imageI)
  then have "sort (map (\<lambda>path. TrimSuffix path ''.md'')
                 (filter (\<lambda>path. Ext path = ''.md'') (map fst fs))) \<noteq> []"
    by (rule ne_set_nonempty)
  then show ?thesis unfolding List_def by blast
qed

lemma addIfExists_exists:
  "\<forall>i \<in> set ids. ruleExists fs i \<Longrightarrow> \<forall>i \<in> set (addIfExists fs ids ident). ruleExists fs i"
  by (simp add: addIfExists_def)

lemma addRulesFor_exists:
  assumes "\<forall>i \<in> set ids. ruleExists fs i"
  shows "\<forall>i \<in> set (addRulesFor fs ids name version). ruleExists fs i"
proof -
  obtain major minor where mm: "majorMinor (Split (normalizeVersion version) ''.'') = (major, minor)"
    by (cases "majorMinor (Split (normalizeVersion version) ''.'')")
  define a where "a = addIfExists fs ids (name @ ''/general'')"
  define b where "b = (if major \<noteq> [] \<and> minor \<noteq> []
                        then addIfExists fs a (name @ ''/'' @ major @ ''.'' @ minor @ ''/general'')
                        else a)"
  define c where "c = (if major \<noteq> [] then addIfExists fs b (name @ ''/'' @ major @ ''/general'') else b)"
  have Pa: "\<forall>i \<in> set a. ruleExists fs i"
    unfolding a_def using assms by (rule addIfExists_exists)
  have Pb: "\<forall>i \<in> set b. ruleExists fs i"
    unfolding b_def using Pa addIfExists_exists[OF Pa] by presburger
  have Pc: "\<forall>i \<in> set c. ruleExists fs i"
    unfolding c_def using Pb addIfExists_exists[OF Pb] by presburger
  have "addRulesFor fs ids name version =
          (if version = [] then ids else if normalizeVersion version = [] then a else c)"
    unfolding a_def b_def c_def by (simp add: addRulesFor_def Let_def mm)
  then show ?thesis using assms Pa Pc by presburger
qed

lemma buildGeneralRulesFromDetection_exists:
  "\<forall>i \<in> set (buildGeneralRulesFromDetection fs stack). ruleExists fs i"
  unfolding buildGeneralRulesFromDetection_def Let_def
  by (intro addRulesFor_exists) simp

lemma generate_then_validate:
  assumes "generateGeneral fs stack = Inr (Some content)"
  shows "\<exists>expected. validateExpected fs stack = Inr expected \<and> expected = content
           \<and> compareFileStatus (Inr content) expected = statusUpToDate"
proof -
  let ?ids = "buildGeneralRulesFromDetection fs stack"
  from assms have ne: "?ids \<noteq> []"
    by (auto simp: generateGeneral_def Let_def split: if_splits)
  then obtain i where i: "i \<in> set ?ids" by (cases ?ids) auto
  have ex: "\<forall>i \<in> set ?ids. ruleExists fs i" by (rule buildGeneralRulesFromDetection_exists)
  with i have "ruleExists fs i" by blast
  then obtain list where list: "List fs = Inr list" "list \<noteq> []"
    using List_nonempty by blast
  have nf: "find (\<lambda>ident. \<not> ruleExists fs ident) ?ids = None"
    using ex by (simp add: find_None_iff)
  have "validateExpected fs stack = Inr content"
    using assms ne list nf
    by (auto simp: validateExpected_def generateGeneral_def Let_def loadAndMergeRules_def
        split: if_splits)
  then show ?thesis by (simp add: compareFileStatus_def)
qed

lemma same_store_same_rendering:
  assumes "map_of fs = map_of fs'"
  shows "generateGeneral fs stack = generateGeneral fs' stack"
    and "buildAgentContent fs (buildAgentRulesFromDetection fs stack)
           = buildAgentContent fs' (buildAgentRulesFromDetection fs' stack)"
proof -
  have g: "Get fs = Get fs'" by (simp add: fun_eq_iff Get_def assms)
  have r: "ruleExists fs = ruleExists fs'"
    unfolding fun_eq_iff ruleExists_def g by (intro allI refl)
  have a: "addIfExists fs = addIfExists fs'"
    unfolding fun_eq_iff addIfExists_def r by (intro allI refl)
  have ar: "addRulesFor fs = addRulesFor fs'"
    unfolding fun_eq_iff addRulesFor_def a by (intro allI refl)
  have b: "buildGeneralRulesFromDetection fs = buildGeneralRulesFromDetection fs'"
    unfolding fun_eq_iff buildGeneralRulesFromDetection_def ar by (intro allI refl)
  have m: "mergeRule fs = mergeRule fs'"
    unfolding fun_eq_iff mergeRule_def g by (intro allI refl)
  have l: "loadAndMergeRules fs = loadAndMergeRules fs'"
    unfolding fun_eq_iff loadAndMergeRules_def m by (intro allI refl)
  show "generateGeneral fs stack = generateGeneral fs' stack"
    unfolding generateGeneral_def b l by (rule refl)
  have aa: "addAgentFor fs = addAgentFor fs'"
    unfolding fun_eq_iff addAgentFor_def r by (intro allI refl)
  have ba: "buildAgentRulesFromDetection fs = buildAgentRulesFromDetection fs'"
    unfolding fun_eq_iff buildAgentRulesFromDetection_def aa by (intro allI refl)
  have al: "agentLoop fs b i files = agentLoop fs' b i files" for b i files
  proof (induction files arbitrary: b i)
    case Nil
    show ?case by simp
  next
    case (Cons af files)
    show ?case unfolding agentLoop_step g Cons.IH by (rule refl)
  qed
  show "buildAgentContent fs (buildAgentRulesFromDetection fs stack)
           = buildAgentContent fs' (buildAgentRulesFromDetection fs' stack)"
    unfolding buildAgentContent_def ba al by (rule refl)
qed

text \<open>
  Claim C6. Rendering twice gives the same bytes. For every stack and every two
  embedded rule stores that hold the same content under the same names, in whatever
  order the files are listed, resolving, merging and rendering gives the same general
  document and the same agent document: the output depends on the record and on the
  content of the store only. Moreover, when the generate command (automatic mode)
  renders the general document \<open>content\<close>, the validate command, which resolves, merges
  and renders again from the same stack and store, computes that very text as its
  expected output, and finds a file holding \<open>content\<close> up to date.
\<close>

theorem render_twice_identical:
  "(map_of fs = map_of fs' \<longrightarrow>
      generateGeneral fs stack = generateGeneral fs' stack
      \<and> buildAgentContent fs (buildAgentRulesFromDetection fs stack)
          = buildAgentContent fs' (buildAgentRulesFromDetection fs' stack))
   \<and> (generateGeneral fs stack = Inr (Some content) \<longrightarrow>
        (\<exists>expected. validateExpected fs stack = Inr expected \<and> expected = content
           \<and> compareFileStatus (Inr content) expected = statusUpToDate))"
  using same_store_same_rendering generate_then_validate by blast

theorem render_twice_identical_witness:
  "generateGeneral [(''php/8/general.md'', ''Use PHP 8.''), (''php/general.md'', ''Use PHP.'')]
      (emptyStack\<lparr>PHP := ''^8.2''\<rparr>)
   = generateGeneral [(''php/general.md'', ''Use PHP.''), (''php/8/general.md'', ''Use PHP 8.'')]
      (emptyStack\<lparr>PHP := ''^8.2''\<rparr>)
   \<and> validateExpected [(''php/general.md'', ''Use PHP.''), (''php/8/general.md'', ''Use PHP 8.'')]
      (emptyStack\<lparr>PHP := ''^8.2''\<rparr>)
   = Inr ''## Stack\<newline>\<newline>- PHP: ^8.2\<newline>\<newline>---\<newline>\<newline>Use PHP.\<newline>\<newline>---\<newline>\<newline>Use PHP 8.''"
proof -
  let ?fs = "[(''php/general.md'', ''Use PHP.''), (''php/8/general.md'', ''Use PHP 8.'')]"
  let ?fs' = "[(''php/8/general.md'', ''Use PHP 8.''), (''php/general.md'', ''Use PHP.'')]"
  let ?stack = "emptyStack\<lparr>PHP := ''^8.2''\<rparr>"
  let ?content = "''## Stack\<newline>\<newline>- PHP: ^8.2\<newline>\<newline>---\<newline>\<newline>Use PHP.\<newline>\<newline>---\<newline>\<newline>Use PHP 8.''"
  have m: "map_of ?fs' = map_of ?fs" by (auto simp: fun_eq_iff)
  have g: "generateGeneral ?fs ?stack = Inr (Some ?content)" by code_simp
  note a = render_twice_identical[where fs = ?fs' and fs' = ?fs and stack = ?stack]
  note b = render_twice_identical[where fs = ?fs and stack = ?stack and content = ?content]
  from a m have 1: "generateGeneral ?fs' ?stack = generateGeneral ?fs ?stack" by blast
  from b g have 2: "validateExpected ?fs ?stack = Inr ?content" by blast
  from 1 2 show ?thesis by simp
qed

section \<open>Stack detection\<close>

lemma keeps_refl: "keeps s s"
  by (simp add: keeps_def)

lemma keeps_trans: "keeps s1 s2 \<Longrightarrow> keeps s2 s3 \<Longrightarrow> keeps s1 s3"
  by (auto simp: keeps_def)

lemma keeps_detectFromComposer: "keeps stack (snd (detectFromComposer dir stack))"
  by (auto simp: detectFromComposer_def keeps_def Let_def split: sum.splits option.splits)

lemma keeps_detectFromPackageJson: "keeps stack (snd (detectFromPackageJson dir stack))"
  by (auto simp: detectFromPackageJson_def keeps_def Let_def split: sum.splits option.splits prod.splits)

lemma keeps_detectFromPackageLockJson: "keeps stack (snd (detectFromPackageLockJson dir stack))"
  by (auto simp: detectFromPackageLockJson_def keeps_def Let_def split: sum.splits option.splits)

lemma keeps_recordFinding: "keeps stack (recordFinding stack f)"
  by (cases "(stack, f)" rule: recordFinding.cases) (auto simp: keeps_def)

lemma keeps_foldl_recordFinding: "keeps stack (foldl recordFinding stack fs)"
proof (induction fs arbitrary: stack)
  case Nil
  then show ?case by (simp add: keeps_refl)
next
  case (Cons f fs)
  from keeps_recordFinding[of stack f] Cons[of "recordFinding stack f"] show ?case
    by (auto intro: keeps_trans)
qed

lemma keeps_detectFromComposerLock: "keeps stack (snd (detectFromComposerLock dir stack))"
  by (auto simp: detectFromComposerLock_def keeps_refl keeps_foldl_recordFinding
      split: sum.splits option.splits)

lemma keeps_walkFn: "keeps stack (snd (walkFn dir atRoot name dirEntry err stack))"
  by (simp add: walkFn_def keeps_refl keeps_detectFromComposer keeps_detectFromComposerLock
      keeps_detectFromPackageJson keeps_detectFromPackageLockJson)

lemma keeps_walk:
  "keeps stack (snd (walkDir dir atRoot name d stack))"
  "keeps stack (snd (walkEntries dir es stack))"
proof (induction dir atRoot name d stack and dir es stack rule: walkDir_walkEntries.induct)
  case (1 dir atRoot name fd stack)
  then show ?case by (simp add: keeps_walkFn)
next
  case (2 dir atRoot name l s es stack)
  obtain r stack1 where w: "walkFn dir atRoot name True None stack = (r, stack1)"
    by (cases "walkFn dir atRoot name True None stack")
  with keeps_walkFn[of stack dir atRoot name True None] have k1: "keeps stack stack1" by simp
  obtain r2 stack2 where w2: "walkFn dir atRoot name True (Some ErrPermission) stack1 = (r2, stack2)"
    by (cases "walkFn dir atRoot name True (Some ErrPermission) stack1")
  with keeps_walkFn[of stack1 dir atRoot name True "Some ErrPermission"] have k2: "keeps stack1 stack2" by simp
  show ?case
  proof (cases r)
    case Continue
    show ?thesis
    proof (cases l)
      case True
      with 2(1)[OF w[symmetric] Continue] k1 w Continue show ?thesis
        by (auto intro: keeps_trans)
    next
      case False
      show ?thesis
      proof (cases r2)
        case Continue2: Continue
        from 2(2)[OF w[symmetric] Continue False w2[symmetric] Continue2]
        show ?thesis using w w2 Continue Continue2 False k1 k2
          by (auto intro: keeps_trans)
      qed (use w w2 Continue False k1 k2 in \<open>auto intro: keeps_trans\<close>)
    qed
  qed (use w k1 in auto)
next
  case (3 dir stack)
  then show ?case by (simp add: keeps_refl)
next
  case (4 dir name1 d1 rest stack)
  obtain r stack1 where w: "walkDir dir False name1 d1 stack = (r, stack1)"
    by (cases "walkDir dir False name1 d1 stack")
  with 4(1) have k1: "keeps stack stack1" by simp
  show ?case
  proof (cases r)
    case Continue
    with 4(2)[OF w[symmetric] Continue] k1 w show ?thesis
      by (auto intro: keeps_trans)
  qed (use w k1 in auto)
qed

lemma keeps_walkEntries_step:
  "keeps (snd (walkDir dir False name d stack)) (snd (walkEntries dir ((name, d) # rest) stack))"
proof -
  obtain r stack1 where w: "walkDir dir False name d stack = (r, stack1)"
    by (cases "walkDir dir False name d stack")
  show ?thesis
    using w keeps_walk(2)[of stack1 dir rest] by (cases r) (auto simp: keeps_refl)
qed

lemma keeps_WalkDir: "keeps stack (snd (WalkDir root stack))"
proof (cases root)
  case None
  obtain r stack1 where w: "walkFn None True ''.'' False (Some ErrNotExist) stack = (r, stack1)"
    by (cases "walkFn None True ''.'' False (Some ErrNotExist) stack")
  with keeps_walkFn[of stack None True "''.''" False "Some ErrNotExist"] have "keeps stack stack1" by simp
  with w None show ?thesis by (cases r) (auto simp: WalkDir_def)
next
  case (Some d)
  obtain r stack1 where w: "walkDir None True ''.'' d stack = (r, stack1)"
    by (cases "walkDir None True ''.'' d stack")
  with keeps_walk(1)[of stack None True "''.''" d] have "keeps stack stack1" by simp
  with w Some show ?thesis by (cases r) (auto simp: WalkDir_def)
qed

lemma DetectStack_Inr:
  assumes "DetectStack root = Inr final"
  shows "final = snd (WalkDir root (snd (detectFromPackageLockJson root
            (snd (detectFromPackageJson root (snd (detectFromComposer root emptyStack)))))))"
  using assms unfolding DetectStack_def Let_def
  by (auto split: prod.splits option.splits)

text \<open>
  Claim C1. First writer wins. Whatever the project tree and whatever the stack
  accumulated so far, no detection overwrites a field that holds a non-empty version:
  none of the four marker readers does, in any directory, nor the walk of any entry; in
  the walk of a directory's entries what the first entry left is kept by all later
  ones; and the stack \<open>DetectStack\<close> returns keeps every value the readers found at the
  root, which run before any subdirectory is visited. So a root manifest declaring
  \<open>8.2\<close> wins over a nested one declaring \<open>8.3\<close>.
\<close>

theorem first_writer_wins:
  "keeps stack (snd (detectFromComposer dir stack))
   \<and> keeps stack (snd (detectFromComposerLock dir stack))
   \<and> keeps stack (snd (detectFromPackageJson dir stack))
   \<and> keeps stack (snd (detectFromPackageLockJson dir stack))
   \<and> keeps stack (snd (walkDir dir atRoot name d stack))
   \<and> keeps (snd (walkDir dir False name d stack)) (snd (walkEntries dir ((name, d) # rest) stack))
   \<and> (DetectStack root = Inr final \<longrightarrow>
        keeps (snd (detectFromComposer root emptyStack)) final
        \<and> keeps (snd (detectFromPackageJson root (snd (detectFromComposer root emptyStack)))) final
        \<and> keeps (snd (detectFromPackageLockJson root
                   (snd (detectFromPackageJson root (snd (detectFromComposer root emptyStack)))))) final)"
proof -
  let ?s1 = "snd (detectFromComposer root emptyStack)"
  let ?s2 = "snd (detectFromPackageJson root ?s1)"
  let ?s3 = "snd (detectFromPackageLockJson root ?s2)"
  have k12: "keeps ?s1 ?s2" by (rule keeps_detectFromPackageJson)
  have k23: "keeps ?s2 ?s3" by (rule keeps_detectFromPackageLockJson)
  have root: "keeps ?s1 final \<and> keeps ?s2 final \<and> keeps ?s3 final" if "DetectStack root = Inr final"
  proof -
    from DetectStack_Inr[OF that] have "keeps ?s3 final" by (simp add: keeps_WalkDir)
    with k12 k23 show ?thesis by (blast intro: keeps_trans)
  qed
  show ?thesis
    using keeps_detectFromComposer keeps_detectFromComposerLock keeps_detectFromPackageJson
      keeps_detectFromPackageLockJson keeps_walk(1) keeps_walkEntries_step root
    by blast
qed

theorem first_writer_wins_witness:
  "DetectStack (Some (Dir True True
      [(''api'', Dir True True
          [(''composer.json'', File \<lparr>unreadable = False,
              asComposerJSON = Some \<lparr>Require = [''php'' \<mapsto> ''8.3''], ConfigPlatform = None\<rparr>,
              asPackageJSON = None, asLockFile = None, asComposerLock = None\<rparr>)]),
       (''composer.json'', File \<lparr>unreadable = False,
              asComposerJSON = Some \<lparr>Require = [''php'' \<mapsto> ''8.2''], ConfigPlatform = None\<rparr>,
              asPackageJSON = None, asLockFile = None, asComposerLock = None\<rparr>)]))
   = Inr \<lparr>PHP = ''8.2'', Laravel = [], Nuxt = [], Vue = [], NuxtUI = []\<rparr>"
proof -
  let ?root = "Some (Dir True True
      [(''api'', Dir True True
          [(''composer.json'', File \<lparr>unreadable = False,
              asComposerJSON = Some \<lparr>Require = [''php'' \<mapsto> ''8.3''], ConfigPlatform = None\<rparr>,
              asPackageJSON = None, asLockFile = None, asComposerLock = None\<rparr>)]),
       (''composer.json'', File \<lparr>unreadable = False,
              asComposerJSON = Some \<lparr>Require = [''php'' \<mapsto> ''8.2''], ConfigPlatform = None\<rparr>,
              asPackageJSON = None, asLockFile = None, asComposerLock = None\<rparr>)])"
  let ?final = "\<lparr>PHP = ''8.2'', Laravel = [], Nuxt = [], Vue = [], NuxtUI = []\<rparr>"
  have ev: "DetectStack ?root = Inr ?final" by code_simp
  have r: "PHP (snd (detectFromComposer ?root emptyStack)) = ''8.2''" by code_simp
  from first_writer_wins[where root = ?root and final = ?final] ev
  have "keeps (snd (detectFromComposer ?root emptyStack)) ?final" by blast
  with r have "PHP ?final = ''8.2''" by (simp add: keeps_def)
  with ev show ?thesis by simp
qed

text \<open>
  Claim C10. The lock-file reader changes at most the \<open>NuxtUI\<close> field. For every
  directory and every stack, after \<open>detectFromPackageLockJson\<close> the fields \<open>PHP\<close>,
  \<open>Laravel\<close>, \<open>Nuxt\<close> and \<open>Vue\<close> are as before, the stack differs from the one on
  entry in \<open>NuxtUI\<close> at most, and a stack whose \<open>NuxtUI\<close> was not empty is unchanged.
\<close>

theorem lock_reader_frame:
  "PHP (snd (detectFromPackageLockJson dir stack)) = PHP stack
   \<and> Laravel (snd (detectFromPackageLockJson dir stack)) = Laravel stack
   \<and> Nuxt (snd (detectFromPackageLockJson dir stack)) = Nuxt stack
   \<and> Vue (snd (detectFromPackageLockJson dir stack)) = Vue stack
   \<and> (\<exists>v. snd (detectFromPackageLockJson dir stack) = stack\<lparr>NuxtUI := v\<rparr>)
   \<and> (NuxtUI stack \<noteq> [] \<longrightarrow> snd (detectFromPackageLockJson dir stack) = stack)"
proof -
  have 1: "snd (detectFromPackageLockJson dir stack) = stack
        \<or> (NuxtUI stack = [] \<and> (\<exists>v. snd (detectFromPackageLockJson dir stack) = stack\<lparr>NuxtUI := v\<rparr>))"
    by (auto simp: detectFromPackageLockJson_def split: sum.splits option.splits)
  have 2: "stack = stack\<lparr>NuxtUI := NuxtUI stack\<rparr>" by simp
  from 1 show ?thesis
  proof
    assume "snd (detectFromPackageLockJson dir stack) = stack"
    then show ?thesis using 2 by metis
  next
    assume "NuxtUI stack = [] \<and> (\<exists>v. snd (detectFromPackageLockJson dir stack) = stack\<lparr>NuxtUI := v\<rparr>)"
    then show ?thesis by auto
  qed
qed

theorem lock_reader_frame_witness:
  "snd (detectFromPackageLockJson
     (Some (Dir True True [(''package-lock.json'', File \<lparr>unreadable = False, asComposerJSON = None,
        asPackageJSON = None,
        asLockFile = Some \<lparr>LockDependencies = [''@nuxt/ui'' \<mapsto> ''3.1.0''], LockPackages = Map.empty\<rparr>,
        asComposerLock = None\<rparr>)]))
     \<lparr>PHP = ''8.2'', Laravel = [], Nuxt = ''3'', Vue = [], NuxtUI = ''2.0.0''\<rparr>)
   = \<lparr>PHP = ''8.2'', Laravel = [], Nuxt = ''3'', Vue = [], NuxtUI = ''2.0.0''\<rparr>"
  using lock_reader_frame[where stack = "\<lparr>PHP = ''8.2'', Laravel = [], Nuxt = ''3'', Vue = [], NuxtUI = ''2.0.0''\<rparr>"
      and dir = "Some (Dir True True [(''package-lock.json'', File \<lparr>unreadable = False, asComposerJSON = None,
        asPackageJSON = None,
        asLockFile = Some \<lparr>LockDependencies = [''@nuxt/ui'' \<mapsto> ''3.1.0''], LockPackages = Map.empty\<rparr>,
        asComposerLock = None\<rparr>)])"]
  by simp

lemma walkFn_never_fails: "fst (walkFn dir atRoot name dirEntry err stack) \<noteq> Failed e"
  by (simp add: walkFn_def)

lemma walk_never_fails:
  "fst (walkDir dir atRoot name d stack) \<noteq> Failed e"
  "fst (walkEntries dir es stack) \<noteq> Failed e"
proof (induction dir atRoot name d stack and dir es stack rule: walkDir_walkEntries.induct)
  case (1 dir atRoot name fd stack)
  then show ?case by (simp add: walkFn_never_fails)
next
  case (2 dir atRoot name l s es stack)
  obtain r stack1 where w: "walkFn dir atRoot name True None stack = (r, stack1)"
    by (cases "walkFn dir atRoot name True None stack")
  with walkFn_never_fails[of dir atRoot name True None stack] have nf1: "\<And>e. r \<noteq> Failed e" by simp
  obtain r2 stack2 where w2: "walkFn dir atRoot name True (Some ErrPermission) stack1 = (r2, stack2)"
    by (cases "walkFn dir atRoot name True (Some ErrPermission) stack1")
  with walkFn_never_fails[of dir atRoot name True "Some ErrPermission" stack1]
  have nf2: "\<And>e. r2 \<noteq> Failed e" by simp
  show ?case
  proof (cases r)
    case Continue
    show ?thesis
    proof (cases l)
      case True
      with 2(1)[OF w[symmetric] Continue] w Continue show ?thesis by simp
    next
      case False
      show ?thesis
      proof (cases r2)
        case Continue2: Continue
        from 2(2)[OF w[symmetric] Continue False w2[symmetric] Continue2]
        show ?thesis using w w2 Continue Continue2 False by simp
      qed (use w w2 Continue False nf2 in auto)
    qed
  qed (use w nf1 in auto)
next
  case (3 dir stack)
  then show ?case by simp
next
  case (4 dir name1 d1 rest stack)
  obtain r stack1 where w: "walkDir dir False name1 d1 stack = (r, stack1)"
    by (cases "walkDir dir False name1 d1 stack")
  with 4(1) have nf: "r \<noteq> Failed e" by simp
  show ?case
  proof (cases r)
    case Continue
    with 4(2)[OF w[symmetric] Continue] w show ?thesis by simp
  qed (use w nf in auto)
qed

lemma WalkDir_never_fails: "fst (WalkDir root stack) = None"
proof (cases root)
  case None
  obtain r stack1 where w: "walkFn None True ''.'' False (Some ErrNotExist) stack = (r, stack1)"
    by (cases "walkFn None True ''.'' False (Some ErrNotExist) stack")
  with walkFn_never_fails[of None True "''.''" False "Some ErrNotExist" stack] have "\<And>e. r \<noteq> Failed e" by simp
  with w None show ?thesis by (cases r) (auto simp: WalkDir_def)
next
  case (Some d)
  obtain r stack1 where w: "walkDir None True ''.'' d stack = (r, stack1)"
    by (cases "walkDir None True ''.'' d stack")
  with walk_never_fails(1)[of None True "''.''" d stack] have "\<And>e. r \<noteq> Failed e" by simp
  with w Some show ?thesis by (cases r) (auto simp: WalkDir_def)
qed

lemma reader_error_iff:
  "fst (detectFromComposer dir stack) \<noteq> None \<longleftrightarrow> markerFails dir ''composer.json'' asComposerJSON"
  "fst (detectFromPackageJson dir stack) \<noteq> None \<longleftrightarrow> markerFails dir ''package.json'' asPackageJSON"
  "fst (detectFromPackageLockJson dir stack) \<noteq> None \<longleftrightarrow> markerFails dir ''package-lock.json'' asLockFile"
  by (auto simp: detectFromComposer_def detectFromPackageJson_def detectFromPackageLockJson_def
      markerFails_def Let_def split: sum.splits option.splits prod.splits)

lemma unlistable_skipped:
  "walkDir dir atRoot name (Dir False s es) stack = (Continue, stack)"
  by (simp add: walkFn_def)

text \<open>
  Claim C7, as the code has it. The walk never returns an error: every error it meets,
  in a subdirectory or at the root itself, goes to the callback, which skips it, and a
  directory that cannot be listed is left with the stack unchanged. A root that does
  not exist gives the empty stack and no error. \<open>DetectStack\<close> returns an error exactly
  when one of the three markers read at the root (composer.json, package.json,
  package-lock.json) fails: the read gives an error other than not-exist, or the
  content does not decode.
\<close>

theorem DetectStack_error_policy:
  "fst (WalkDir root stack) = None
   \<and> walkDir dir atRoot name (Dir False s es) stack = (Continue, stack)
   \<and> DetectStack None = Inr emptyStack
   \<and> ((\<exists>err. DetectStack root = Inl err) \<longleftrightarrow>
        (markerFails root ''composer.json'' asComposerJSON
         \<or> markerFails root ''package.json'' asPackageJSON
         \<or> markerFails root ''package-lock.json'' asLockFile))"
proof -
  have 3: "DetectStack None = Inr emptyStack"
    by (simp add: DetectStack_def detectFromComposer_def detectFromPackageJson_def
        detectFromPackageLockJson_def WalkDir_def walkFn_def IsNotExist_def)
  let ?s1 = "snd (detectFromComposer root emptyStack)"
  let ?s2 = "snd (detectFromPackageJson root ?s1)"
  let ?s3 = "snd (detectFromPackageLockJson root ?s2)"
  have "(\<exists>err. DetectStack root = Inl err) \<longleftrightarrow>
          (fst (detectFromComposer root emptyStack) \<noteq> None
           \<or> fst (detectFromPackageJson root ?s1) \<noteq> None
           \<or> fst (detectFromPackageLockJson root ?s2) \<noteq> None)"
    using WalkDir_never_fails[of root ?s3]
    unfolding DetectStack_def Let_def
    by (cases "detectFromComposer root emptyStack"; cases "detectFromPackageJson root ?s1";
        cases "detectFromPackageLockJson root ?s2"; cases "WalkDir root ?s3")
       (auto split: option.splits)
  then have 4: "(\<exists>err. DetectStack root = Inl err) \<longleftrightarrow>
        (markerFails root ''composer.json'' asComposerJSON
         \<or> markerFails root ''package.json'' asPackageJSON
         \<or> markerFails root ''package-lock.json'' asLockFile)"
    unfolding reader_error_iff .
  show ?thesis using WalkDir_never_fails unlistable_skipped 3 4 by blast
qed

text \<open>
  Claim C7 as stated fails. A root that does not exist, and a root that cannot be
  listed, give no error but the empty stack.
\<close>

theorem DetectStack_missing_root_counterexample:
  "DetectStack None = Inr \<lparr>PHP = [], Laravel = [], Nuxt = [], Vue = [], NuxtUI = []\<rparr>
   \<and> DetectStack (Some (Dir False True [])) = Inr \<lparr>PHP = [], Laravel = [], Nuxt = [], Vue = [], NuxtUI = []\<rparr>"
  by code_simp

theorem DetectStack_error_policy_witness:
  "DetectStack (Some (Dir True True
      [(''api'', Dir False False []),
       (''package.json'', File \<lparr>unreadable = False, asComposerJSON = None,
              asPackageJSON = Some \<lparr>Dependencies = [''vue'' \<mapsto> ''^3.4''], DevDependencies = Map.empty\<rparr>,
              asLockFile = None, asComposerLock = None\<rparr>)]))
     = Inr \<lparr>PHP = [], Laravel = [], Nuxt = [], Vue = ''^3.4'', NuxtUI = []\<rparr>
   \<and> DetectStack (Some (Dir True True
      [(''package.json'', File \<lparr>unreadable = False, asComposerJSON = None,
              asPackageJSON = None, asLockFile = None, asComposerLock = None\<rparr>)]))
     = Inl ErrSyntax"
proof -
  let ?ok = "Some (Dir True True
      [(''api'', Dir False False []),
       (''package.json'', File \<lparr>unreadable = False, asComposerJSON = None,
              asPackageJSON = Some \<lparr>Dependencies = [''vue'' \<mapsto> ''^3.4''], DevDependencies = Map.empty\<rparr>,
              asLockFile = None, asComposerLock = None\<rparr>)])"
  let ?bad = "Some (Dir True True
      [(''package.json'', File \<lparr>unreadable = False, asComposerJSON = None,
              asPackageJSON = None, asLockFile = None, asComposerLock = None\<rparr>)])"
  have a: "DetectStack ?ok = Inr \<lparr>PHP = [], Laravel = [], Nuxt = [], Vue = ''^3.4'', NuxtUI = []\<rparr>"
    by code_simp
  have b: "DetectStack ?bad = Inl ErrSyntax" by code_simp
  have "markerFails ?bad ''package.json'' asPackageJSON" by (simp add: markerFails_def)
  with DetectStack_error_policy[where root = ?bad] have "\<exists>err. DetectStack ?bad = Inl err" by blast
  with a b show ?thesis by simp
qed

lemma map_of_pruneEntries:
  "map_of (pruneEntries es) name =
     (case map_of es name of
        None \<Rightarrow> None
      | Some d \<Rightarrow> Some (if excluded name \<and> isDir d then Dir True True [] else prune d))"
  by (induction es) auto

lemma ReadFile_prune: "ReadFile (map_option prune dir) name = ReadFile dir name"
proof (cases dir)
  case None
  then show ?thesis by simp
next
  case (Some d)
  show ?thesis
  proof (cases d)
    case (File fd)
    with Some show ?thesis by simp
  next
    case (Dir l s es)
    have "ReadFile (Some (Dir l s (pruneEntries es))) name = ReadFile (Some (Dir l s es)) name"
    proof (cases "map_of es name")
      case None
      then show ?thesis by (simp add: map_of_pruneEntries)
    next
      case (Some d')
      then show ?thesis by (cases d') (simp_all add: map_of_pruneEntries)
    qed
    with Some Dir show ?thesis by simp
  qed
qed

lemma readers_prune:
  "detectFromComposer (map_option prune dir) stack = detectFromComposer dir stack"
  "detectFromComposerLock (map_option prune dir) stack = detectFromComposerLock dir stack"
  "detectFromPackageJson (map_option prune dir) stack = detectFromPackageJson dir stack"
  "detectFromPackageLockJson (map_option prune dir) stack = detectFromPackageLockJson dir stack"
  by (simp_all only: detectFromComposer_def detectFromComposerLock_def detectFromPackageJson_def
      detectFromPackageLockJson_def ReadFile_prune)

lemma walkFn_prune:
  "walkFn (map_option prune dir) atRoot name dirEntry err stack = walkFn dir atRoot name dirEntry err stack"
  by (simp only: walkFn_def readers_prune)

lemma excluded_skipped:
  assumes "excluded name"
  shows "walkDir dir False name (Dir l s es) stack = (Continue, stack)"
  using assms by (auto simp: walkFn_def excluded_def)

lemma isDir_prune [simp]: "isDir (prune d) = isDir d"
  by (cases d) auto

lemma walk_prune:
  "walkDir (map_option prune dir) atRoot name (prune d) stack = walkDir dir atRoot name d stack"
  "walkEntries (map_option prune dir) (pruneEntries es) stack = walkEntries dir es stack"
proof (induction dir atRoot name d stack and dir es stack rule: walkDir_walkEntries.induct)
  case (1 dir atRoot name fd stack)
  then show ?case by (simp add: walkFn_prune)
next
  case (2 dir atRoot name l s es stack)
  obtain r stack1 where w: "walkFn dir atRoot name True None stack = (r, stack1)"
    by (cases "walkFn dir atRoot name True None stack")
  obtain r2 stack2 where w2: "walkFn dir atRoot name True (Some ErrPermission) stack1 = (r2, stack2)"
    by (cases "walkFn dir atRoot name True (Some ErrPermission) stack1")
  show ?case
  proof (cases r)
    case Continue
    show ?thesis
    proof (cases l)
      case True
      from 2(1)[OF w[symmetric] Continue True]
      show ?thesis using w Continue True by (simp add: walkFn_prune)
    next
      case False
      then show ?thesis using w w2 Continue by (cases r2) (simp_all add: walkFn_prune)
    qed
  qed (use w in \<open>simp_all add: walkFn_prune\<close>)
next
  case (3 dir stack)
  then show ?case by simp
next
  case (4 dir name1 d1 rest stack)
  obtain r stack1 where w: "walkDir dir False name1 d1 stack = (r, stack1)"
    by (cases "walkDir dir False name1 d1 stack")
  show ?case
  proof (cases "excluded name1 \<and> isDir d1")
    case True
    then obtain l s es where d1: "d1 = Dir l s es" by (cases d1) auto
    from True have e: "excluded name1" by simp
    have "walkDir dir False name1 d1 stack = (Continue, stack)"
      unfolding d1 using e by (rule excluded_skipped)
    moreover have "walkDir (map_option prune dir) False name1 (Dir True True []) stack = (Continue, stack)"
      using e by (rule excluded_skipped)
    moreover from calculation(1) w have "r = Continue" "stack1 = stack" by simp_all
    ultimately show ?thesis using True 4(2)[OF w[symmetric]] by simp
  next
    case False
    then have p: "pruneEntries ((name1, d1) # rest) = (name1, prune d1) # pruneEntries rest" by auto
    show ?thesis
    proof (cases r)
      case Continue
      with 4(2)[OF w[symmetric] Continue] 4(1) w show ?thesis unfolding p by simp
    qed (use w 4(1) in \<open>simp_all add: p del: pruneEntries.simps\<close>)
  qed
qed

lemma DetectStack_prune: "DetectStack (map_option prune root) = DetectStack root"
proof -
  have "WalkDir (map_option prune root) stack = WalkDir root stack" for stack
  proof (cases root)
    case None
    then show ?thesis by simp
  next
    case (Some d)
    have "walkDir None True ''.'' (prune d) stack = walkDir None True ''.'' d stack"
      using walk_prune(1)[of None True "''.''" d stack] by simp
    with Some show ?thesis by (simp add: WalkDir_def)
  qed
  then show ?thesis
    by (simp only: DetectStack_def readers_prune)
qed

text \<open>
  Claim C8. Directory exclusion. A directory below the root whose name starts with a
  dot or is one of node_modules, composer, vendor is skipped by the walk without being
  entered and leaves the stack as it was; so the result of \<open>DetectStack\<close> is the one for
  the tree with all such directories emptied, and two trees that differ only inside
  such directories give the same result: no marker file in them is consulted.
\<close>

theorem excluded_directories_contribute_nothing:
  "(excluded name \<longrightarrow> walkDir dir False name (Dir l s es) stack = (Continue, stack))
   \<and> DetectStack (Some (prune t)) = DetectStack (Some t)
   \<and> (prune t = prune t' \<longrightarrow> DetectStack (Some t) = DetectStack (Some t'))"
proof -
  have 1: "DetectStack (Some (prune t)) = DetectStack (Some t)" for t
    using DetectStack_prune[of "Some t"] by simp
  have 2: "DetectStack (Some t) = DetectStack (Some t')" if "prune t = prune t'"
    using 1[of t] 1[of t'] that by simp
  show ?thesis using excluded_skipped 1 2 by blast
qed

theorem excluded_directories_contribute_nothing_witness:
  "walkDir None False ''vendor'' (Dir True True
          [(''composer.json'', File \<lparr>unreadable = False,
              asComposerJSON = Some \<lparr>Require = [''php'' \<mapsto> ''8.3''], ConfigPlatform = None\<rparr>,
              asPackageJSON = None, asLockFile = None, asComposerLock = None\<rparr>)])
     \<lparr>PHP = [], Laravel = [], Nuxt = [], Vue = [], NuxtUI = []\<rparr>
   = (Continue, \<lparr>PHP = [], Laravel = [], Nuxt = [], Vue = [], NuxtUI = []\<rparr>)
   \<and> DetectStack (Some (Dir True True
      [(''vendor'', Dir True True
          [(''composer.json'', File \<lparr>unreadable = False,
              asComposerJSON = Some \<lparr>Require = [''php'' \<mapsto> ''8.3''], ConfigPlatform = None\<rparr>,
              asPackageJSON = None, asLockFile = None, asComposerLock = None\<rparr>)]),
       (''.git'', Dir True True
          [(''package.json'', File \<lparr>unreadable = False, asComposerJSON = None,
              asPackageJSON = None, asLockFile = None, asComposerLock = None\<rparr>)])]))
   = DetectStack (Some (Dir True True [(''vendor'', Dir True True []), (''.git'', Dir True True [])]))
   \<and> DetectStack (Some (Dir True True [(''vendor'', Dir True True []), (''.git'', Dir True True [])]))
       = Inr \<lparr>PHP = [], Laravel = [], Nuxt = [], Vue = [], NuxtUI = []\<rparr>"
proof -
  let ?v = "Dir True True
          [(''composer.json'', File \<lparr>unreadable = False,
              asComposerJSON = Some \<lparr>Require = [''php'' \<mapsto> ''8.3''], ConfigPlatform = None\<rparr>,
              asPackageJSON = None, asLockFile = None, asComposerLock = None\<rparr>)]"
  let ?t = "Dir True True
      [(''vendor'', ?v),
       (''.git'', Dir True True
          [(''package.json'', File \<lparr>unreadable = False, asComposerJSON = None,
              asPackageJSON = None, asLockFile = None, asComposerLock = None\<rparr>)])]"
  let ?t' = "Dir True True [(''vendor'', Dir True True []), (''.git'', Dir True True [])]"
  let ?e = "\<lparr>PHP = [], Laravel = [], Nuxt = [], Vue = [], NuxtUI = []\<rparr>"
  have x: "excluded ''vendor''" by (simp add: excluded_def ignoredDirs_def)
  have p: "prune ?t = prune ?t'"
    by (simp add: excluded_def ignoredDirs_def HasPrefix_def)
  have e: "DetectStack (Some ?t') = Inr ?e"
    by code_simp
  note inst = excluded_directories_contribute_nothing[where name = "''vendor''" and dir = None
      and l = True and s = True and stack = ?e and t = ?t and t' = ?t']
  from inst x have 1: "walkDir None False ''vendor'' ?v ?e = (Continue, ?e)" by blast
  from inst p have 2: "DetectStack (Some ?t) = DetectStack (Some ?t')" by blast
  from 1 2 e show ?thesis by simp
qed


section \<open>The template merger\<close>

lemma stripLead_fix: "leadLen ps s = 0 \<Longrightarrow> stripLead ps s = s"
  by (subst stripLead.simps) simp

lemma leadLen_stripLead: "leadLen ps (stripLead ps s) = 0"
proof (induction ps s rule: stripLead.induct)
  case (1 ps s)
  show ?case
  proof (cases "leadLen ps s = 0")
    case True
    then show ?thesis by (simp add: stripLead_fix)
  next
    case False
    with 1 show ?thesis by (subst stripLead.simps) simp
  qed
qed

lemma suffix_stripLead: "suffix (stripLead ps s) s"
proof (induction ps s rule: stripLead.induct)
  case (1 ps s)
  show ?case
  proof (cases "leadLen ps s = 0")
    case True
    then show ?thesis by (simp add: stripLead_fix)
  next
    case False
    with 1 have "suffix (stripLead ps (drop (leadLen ps s) s)) (drop (leadLen ps s) s)" by simp
    then have "suffix (stripLead ps (drop (leadLen ps s) s)) s"
      using suffix_drop suffix_order.trans by blast
    with False show ?thesis by (subst stripLead.simps) simp
  qed
qed

lemma leadLen_0_iff: "leadLen ps t = 0 \<longleftrightarrow> (\<forall>p \<in> set ps. \<not> (p \<noteq> [] \<and> prefix p t))"
proof (cases "find (\<lambda>p. p \<noteq> [] \<and> prefix p t) ps")
  case None
  moreover from None have "\<forall>p \<in> set ps. \<not> (p \<noteq> [] \<and> prefix p t)"
    unfolding find_None_iff by blast
  ultimately show ?thesis by (simp add: leadLen_def)
next
  case (Some p)
  then have "p \<in> set ps" "p \<noteq> []" "prefix p t"
    by (auto simp: find_Some_iff)
  with Some show ?thesis by (auto simp: leadLen_def)
qed

lemma leadLen_prefix:
  assumes "leadLen ps t = 0" and "prefix r t"
  shows "leadLen ps r = 0"
  using assms unfolding leadLen_0_iff by (meson prefix_order.trans)

lemma TrimSpace_idem: "TrimSpace (TrimSpace s) = TrimSpace s"
proof -
  let ?t = "stripLead spaceRunes s"
  let ?u = "stripLead (map rev spaceRunes) (rev ?t)"
  have r: "TrimSpace s = rev ?u" by (simp add: TrimSpace_def)
  have "suffix ?u (rev ?t)" by (rule suffix_stripLead)
  then have "prefix (rev ?u) ?t" by (metis suffix_to_prefix rev_rev_ident)
  moreover have "leadLen spaceRunes ?t = 0" by (rule leadLen_stripLead)
  ultimately have "leadLen spaceRunes (rev ?u) = 0" by (rule leadLen_prefix[rotated])
  then have 1: "stripLead spaceRunes (rev ?u) = rev ?u" by (rule stripLead_fix)
  have "leadLen (map rev spaceRunes) ?u = 0" by (rule leadLen_stripLead)
  then have 2: "stripLead (map rev spaceRunes) ?u = ?u" by (rule stripLead_fix)
  have "TrimSpace (rev ?u) = rev ?u"
    unfolding TrimSpace_def 1 rev_rev_ident 2 ..
  then show ?thesis unfolding r .
qed

lemma firstSeen_Nil [simp]: "firstSeen [] = []"
  by (simp add: firstSeen_def)

lemma firstSeen_snoc:
  "firstSeen (xs @ [x]) = (if x \<in> set xs then firstSeen xs else firstSeen xs @ [x])"
  by (simp add: firstSeen_def)

lemma set_firstSeen [simp]: "set (firstSeen xs) = set xs"
  by (simp add: firstSeen_def)

lemma distinct_firstSeen [simp]: "distinct (firstSeen xs)"
  by (simp add: firstSeen_def)

lemma firstSeen_distinct: "distinct xs \<Longrightarrow> firstSeen xs = xs"
  by (simp add: firstSeen_def distinct_remdups_id)

lemma firstSeen_append_firstSeen: "firstSeen (firstSeen xs @ ys) = firstSeen (xs @ ys)"
proof (induction ys rule: rev_induct)
  case Nil
  then show ?case by (simp add: firstSeen_distinct)
next
  case (snoc y ys)
  have "firstSeen (firstSeen xs @ ys @ [y]) = firstSeen ((firstSeen xs @ ys) @ [y])" by simp
  also have "\<dots> = (if y \<in> set (xs @ ys) then firstSeen (xs @ ys) else firstSeen (xs @ ys) @ [y])"
    unfolding firstSeen_snoc using snoc by simp
  also have "\<dots> = firstSeen ((xs @ ys) @ [y])" unfolding firstSeen_snoc ..
  finally show ?case by simp
qed

lemma trimAll_filter: "trimAll xs = filter (\<lambda>v. v \<noteq> []) (map TrimSpace xs)"
  by (induction xs) (auto simp: Let_def)

lemma trimAll_append: "trimAll (a @ b) = trimAll a @ trimAll b"
  by (simp add: trimAll_filter)

lemma trimAll_trimmed:
  assumes "\<forall>x \<in> set xs. TrimSpace x = x \<and> x \<noteq> []"
  shows "trimAll xs = xs"
  using assms by (induction xs) (auto simp: Let_def)

lemma trimAll_elems: "\<forall>x \<in> set (trimAll xs). TrimSpace x = x \<and> x \<noteq> []"
  by (auto simp: trimAll_filter TrimSpace_idem)

lemma trimAll_idem: "trimAll (trimAll xs) = trimAll xs"
  by (rule trimAll_trimmed) (rule trimAll_elems)

lemma trimAll_firstSeen: "trimAll (firstSeen (trimAll xs)) = firstSeen (trimAll xs)"
  by (rule trimAll_trimmed) (simp add: trimAll_elems)

lemma bulletLoop_firstSeen:
  assumes "out = firstSeen (trimAll done)" and "seen = (\<lambda>v. v \<in> set out)"
  shows "bulletLoop seen out vs = firstSeen (trimAll (done @ vs))"
  using assms
proof (induction vs arbitrary: seen out "done")
  case Nil
  then show ?case by simp
next
  case (Cons v vs)
  let ?v = "TrimSpace v"
  have t: "trimAll (done @ [v]) = trimAll done @ (if ?v \<noteq> [] then [?v] else [])"
    by (simp add: trimAll_append Let_def)
  show ?case
  proof (cases "?v = [] \<or> seen ?v")
    case True
    then have "out = firstSeen (trimAll (done @ [v]))"
      using Cons.prems unfolding t by (auto simp: firstSeen_snoc)
    from Cons.IH[OF this Cons.prems(2)] True show ?thesis by (simp add: Let_def)
  next
    case False
    then have o: "out @ [?v] = firstSeen (trimAll (done @ [v]))"
      using Cons.prems unfolding t by (auto simp: firstSeen_snoc)
    have s: "seen(?v := True) = (\<lambda>x. x \<in> set (out @ [?v]))"
      using Cons.prems(2) by (auto simp: fun_eq_iff)
    from Cons.IH[OF o s] False show ?thesis by (simp add: Let_def fun_upd_def)
  qed
qed

lemma mergeBullets_firstSeen: "mergeBullets a b = firstSeen (trimAll (a @ b))"
  unfolding mergeBullets_def by (rule bulletLoop_firstSeen[of "[]" "[]", simplified]) simp

lemma sectionOf_single: "sectionOf [s] = s\<lparr>Bullets := trimAll (Bullets s)\<rparr>"
  by (simp add: sectionOf_def)

lemma sectionOf_snoc:
  assumes "grp \<noteq> []"
  shows "sectionOf (grp @ [s]) =
           (sectionOf grp)\<lparr>Text := joinText (Text (sectionOf grp)) (Text s),
                           Bullets := mergeBullets (Bullets (sectionOf grp)) (Bullets s)\<rparr>"
proof -
  from assms obtain g gs where g: "grp = g # gs" by (cases grp) auto
  have b: "firstSeen (trimAll (concat (map Bullets grp) @ Bullets s))
           = mergeBullets (Bullets (sectionOf grp)) (Bullets s)"
  proof (cases "length grp = 1")
    case True
    with g have "gs = []" by simp
    with g show ?thesis
      by (simp add: sectionOf_def mergeBullets_firstSeen trimAll_append trimAll_idem)
  next
    case False
    then have "Bullets (sectionOf grp) = firstSeen (trimAll (concat (map Bullets grp)))"
      by (simp add: sectionOf_def)
    then show ?thesis
      by (simp add: mergeBullets_firstSeen trimAll_append trimAll_firstSeen firstSeen_append_firstSeen)
  qed
  have l: "length (grp @ [s]) \<noteq> 1" using assms by (cases grp) auto
  show ?thesis
    using b l g by (simp add: sectionOf_def)
qed

lemma headingKey_sectionOf: "grp \<noteq> [] \<Longrightarrow> headingKey (sectionOf grp) = headingKey (hd grp)"
  by (simp add: sectionOf_def headingKey_def)

lemma headingKeys_Nil: "headingKeys [] = []"
  by (simp add: headingKeys_def)

lemma headingKeys_snoc:
  "headingKeys (secs @ [s]) =
     (if headingKey s = [] \<or> headingKey s \<in> set (headingKeys secs) then headingKeys secs
      else headingKeys secs @ [headingKey s])"
  by (simp add: headingKeys_def firstSeen_snoc)

lemma distinct_headingKeys: "distinct (headingKeys secs)"
  by (simp add: headingKeys_def)

lemma headingKeys_nonblank: "h \<in> set (headingKeys secs) \<Longrightarrow> h \<noteq> []"
  by (simp add: headingKeys_def)

lemma sectionsUnder_snoc:
  "sectionsUnder h (secs @ [s]) =
     (if headingKey s = h then sectionsUnder h secs @ [s] else sectionsUnder h secs)"
  by (simp add: sectionsUnder_def)

lemma sectionsUnder_empty:
  assumes "h \<noteq> []" and "h \<notin> set (headingKeys secs)"
  shows "sectionsUnder h secs = []"
  using assms by (auto simp: sectionsUnder_def headingKeys_def filter_empty_conv)

lemma sectionsUnder_nonempty:
  assumes "h \<in> set (headingKeys secs)"
  shows "sectionsUnder h secs \<noteq> []"
  using assms by (auto simp: sectionsUnder_def headingKeys_def filter_empty_conv)

lemma headingKey_hd_sectionsUnder:
  assumes "sectionsUnder h secs \<noteq> []"
  shows "headingKey (hd (sectionsUnder h secs)) = h"
proof -
  from assms have "hd (sectionsUnder h secs) \<in> set (sectionsUnder h secs)" by (rule hd_in_set)
  then show ?thesis by (simp add: sectionsUnder_def)
qed

lemma mergeInvI:
  assumes "merged = mergedByHeading secs"
    and "\<And>h i. index h = Some i \<longleftrightarrow> (i < length (headingKeys secs) \<and> headingKeys secs ! i = h)"
  shows "mergeInv secs (merged, index)"
  unfolding mergeInv_def fst_conv snd_conv using assms by blast

lemma mergeInvD:
  assumes "mergeInv secs (merged, index)"
  shows "merged = mergedByHeading secs"
    and "index h = Some i \<longleftrightarrow> (i < length (headingKeys secs) \<and> headingKeys secs ! i = h)"
  using assms unfolding mergeInv_def fst_conv snd_conv by blast+

lemma mergeInv_index_in_range:
  assumes "mergeInv secs (merged, index)" and "index h = Some i"
  shows "i < length merged"
proof -
  from mergeInvD(2)[OF assms(1), of h i] assms(2) have "i < length (headingKeys secs)" by blast
  then show ?thesis unfolding mergeInvD(1)[OF assms(1)] mergedByHeading_def by simp
qed

lemma mergeSection_blank:
  "headingKey s = [] \<Longrightarrow> mergeSection (merged, index) s = (merged, index)"
  by (simp add: mergeSection_def headingKey_def)

lemma mergeSection_new:
  "headingKey s \<noteq> [] \<Longrightarrow> index (headingKey s) = None \<Longrightarrow>
   mergeSection (merged, index) s
     = (merged @ [s\<lparr>Bullets := trimAll (Bullets s)\<rparr>], index(headingKey s \<mapsto> length merged))"
  by (simp add: mergeSection_def headingKey_def Let_def)

lemma mergeSection_old:
  "headingKey s \<noteq> [] \<Longrightarrow> index (headingKey s) = Some idx \<Longrightarrow>
   mergeSection (merged, index) s
     = (merged[idx := (merged ! idx)\<lparr>Text := joinText (Text (merged ! idx)) (Text s),
                        Bullets := mergeBullets (Bullets (merged ! idx)) (Bullets s)\<rparr>], index)"
  by (simp add: mergeSection_def headingKey_def joinText_def Let_def)

lemma mergeInv_step:
  assumes "mergeInv secs st"
  shows "mergeInv (secs @ [s]) (mergeSection st s)"
proof -
  obtain merged index where st: "st = (merged, index)" by (cases st)
  note m = mergeInvD(1)[OF assms[unfolded st]]
  note ix = mergeInvD(2)[OF assms[unfolded st]]
  let ?K = "headingKeys secs"
  let ?h = "headingKey s"
  have lenm: "length merged = length ?K" unfolding m mergedByHeading_def by simp
  have other: "sectionOf (sectionsUnder h (secs @ [s])) = sectionOf (sectionsUnder h secs)"
    if "h \<noteq> ?h" for h
    using that by (simp add: sectionsUnder_snoc)
  show ?thesis
  proof (cases "?h = []")
    case True
    have K: "headingKeys (secs @ [s]) = ?K" using True by (simp add: headingKeys_snoc)
    have "map (\<lambda>h. sectionOf (sectionsUnder h (secs @ [s]))) ?K
            = map (\<lambda>h. sectionOf (sectionsUnder h secs)) ?K"
    proof (rule map_cong[OF refl])
      fix h assume "h \<in> set ?K"
      then have "h \<noteq> []" by (rule headingKeys_nonblank)
      with True have "h \<noteq> ?h" by simp
      then show "sectionOf (sectionsUnder h (secs @ [s])) = sectionOf (sectionsUnder h secs)"
        by (rule other)
    qed
    then have a: "merged = mergedByHeading (secs @ [s])"
      unfolding mergedByHeading_def K m by (rule sym)
    show ?thesis
      unfolding st mergeSection_blank[of s merged index, OF True]
    proof (rule mergeInvI[OF a])
      fix h i
      show "index h = Some i \<longleftrightarrow> (i < length (headingKeys (secs @ [s])) \<and> headingKeys (secs @ [s]) ! i = h)"
        unfolding K by (rule ix)
    qed
  next
    case False
    show ?thesis
    proof (cases "index ?h")
      case None
      have notin: "?h \<notin> set ?K"
      proof
        assume "?h \<in> set ?K"
        then obtain i where "i < length ?K" "?K ! i = ?h" by (auto simp: in_set_conv_nth)
        then have "index ?h = Some i" unfolding ix by blast
        with None show False by simp
      qed
      have K: "headingKeys (secs @ [s]) = ?K @ [?h]"
        using False notin by (simp add: headingKeys_snoc)
      have old: "map (\<lambda>h. sectionOf (sectionsUnder h (secs @ [s]))) ?K
            = map (\<lambda>h. sectionOf (sectionsUnder h secs)) ?K"
      proof (rule map_cong[OF refl])
        fix h assume "h \<in> set ?K"
        with notin have "h \<noteq> ?h" by auto
        then show "sectionOf (sectionsUnder h (secs @ [s])) = sectionOf (sectionsUnder h secs)"
          by (rule other)
      qed
      have "sectionsUnder ?h secs = []" using False notin by (rule sectionsUnder_empty)
      then have new: "sectionOf (sectionsUnder ?h (secs @ [s])) = s\<lparr>Bullets := trimAll (Bullets s)\<rparr>"
        by (simp add: sectionsUnder_snoc sectionOf_single)
      have a: "merged @ [s\<lparr>Bullets := trimAll (Bullets s)\<rparr>] = mergedByHeading (secs @ [s])"
      proof -
        have "mergedByHeading (secs @ [s])
                = map (\<lambda>h. sectionOf (sectionsUnder h (secs @ [s]))) ?K
                  @ [sectionOf (sectionsUnder ?h (secs @ [s]))]"
          unfolding mergedByHeading_def K by simp
        also have "\<dots> = map (\<lambda>h. sectionOf (sectionsUnder h secs)) ?K
                  @ [s\<lparr>Bullets := trimAll (Bullets s)\<rparr>]"
          unfolding old new ..
        also have "\<dots> = merged @ [s\<lparr>Bullets := trimAll (Bullets s)\<rparr>]"
          unfolding m mergedByHeading_def ..
        finally show ?thesis by (rule sym)
      qed
      show ?thesis
        unfolding st mergeSection_new[of s index merged, OF False None]
      proof (rule mergeInvI[OF a])
        fix h i
        show "(index(?h \<mapsto> length merged)) h = Some i
                \<longleftrightarrow> (i < length (headingKeys (secs @ [s])) \<and> headingKeys (secs @ [s]) ! i = h)"
        proof (cases "h = ?h")
          case True
          have "(i < length (?K @ [?h]) \<and> (?K @ [?h]) ! i = ?h) \<longleftrightarrow> i = length ?K"
          proof
            assume a: "i < length (?K @ [?h]) \<and> (?K @ [?h]) ! i = ?h"
            show "i = length ?K"
            proof (rule ccontr)
              assume "i \<noteq> length ?K"
              with a have i: "i < length ?K" by simp
              with a have "?K ! i = ?h" by (simp add: nth_append)
              with i have "?h \<in> set ?K" by (metis nth_mem)
              with notin show False by simp
            qed
          next
            assume "i = length ?K"
            then show "i < length (?K @ [?h]) \<and> (?K @ [?h]) ! i = ?h" by simp
          qed
          moreover have "(index(?h \<mapsto> length merged)) ?h = Some i \<longleftrightarrow> i = length ?K"
            unfolding lenm by auto
          ultimately show ?thesis unfolding True K by (simp only:)
        next
          case False
          have e: "(i < length (?K @ [?h]) \<and> (?K @ [?h]) ! i = h) \<longleftrightarrow> (i < length ?K \<and> ?K ! i = h)"
            using False by (auto simp: nth_append less_Suc_eq)
          have u: "(index(?h \<mapsto> length merged)) h = index h" using False by simp
          show ?thesis unfolding u ix K by (rule e[symmetric])
        qed
      qed
    next
      case (Some idx)
      then have idx: "idx < length ?K" "?K ! idx = ?h" unfolding ix by blast+
      then have hin: "?h \<in> set ?K" by (metis nth_mem)
      have K: "headingKeys (secs @ [s]) = ?K" using hin by (simp add: headingKeys_snoc)
      have gne: "sectionsUnder ?h secs \<noteq> []" using hin by (rule sectionsUnder_nonempty)
      have midx: "merged ! idx = sectionOf (sectionsUnder ?h secs)"
        unfolding m mergedByHeading_def using idx by simp
      have upd: "(merged ! idx)\<lparr>Text := joinText (Text (merged ! idx)) (Text s),
                        Bullets := mergeBullets (Bullets (merged ! idx)) (Bullets s)\<rparr>
                 = sectionOf (sectionsUnder ?h (secs @ [s]))"
        unfolding midx using sectionOf_snoc[OF gne, of s] by (simp add: sectionsUnder_snoc)
      have a: "merged[idx := sectionOf (sectionsUnder ?h (secs @ [s]))] = mergedByHeading (secs @ [s])"
      proof (rule nth_equalityI)
        show "length (merged[idx := sectionOf (sectionsUnder ?h (secs @ [s]))])
                = length (mergedByHeading (secs @ [s]))"
          unfolding mergedByHeading_def K using lenm by simp
      next
        fix i assume "i < length (merged[idx := sectionOf (sectionsUnder ?h (secs @ [s]))])"
        then have i: "i < length ?K" using lenm by simp
        show "merged[idx := sectionOf (sectionsUnder ?h (secs @ [s]))] ! i = mergedByHeading (secs @ [s]) ! i"
        proof (cases "i = idx")
          case True
          then show ?thesis unfolding mergedByHeading_def K using i idx lenm by simp
        next
          case False
          with i idx have "?K ! i \<noteq> ?h"
            using distinct_headingKeys[of secs] by (metis nth_eq_iff_index_eq)
          then have "sectionOf (sectionsUnder (?K ! i) (secs @ [s])) = sectionOf (sectionsUnder (?K ! i) secs)"
            by (rule other)
          moreover have "merged ! i = sectionOf (sectionsUnder (?K ! i) secs)"
            unfolding m mergedByHeading_def using i by simp
          ultimately show ?thesis unfolding mergedByHeading_def K using i False lenm by simp
        qed
      qed
      show ?thesis
        unfolding st mergeSection_old[of s index idx merged, OF False Some] upd
      proof (rule mergeInvI[OF a])
        fix h i
        show "index h = Some i \<longleftrightarrow> (i < length (headingKeys (secs @ [s])) \<and> headingKeys (secs @ [s]) ! i = h)"
          unfolding K by (rule ix)
      qed
    qed
  qed
qed

lemma mergeInv_init: "mergeInv [] ([], Map.empty)"
  by (simp add: mergeInv_def mergedByHeading_def headingKeys_Nil)

lemma mergeInv_foldl: "mergeInv secs st \<Longrightarrow> mergeInv (secs @ rest) (foldl mergeSection st rest)"
proof (induction rest arbitrary: secs st)
  case Nil
  then show ?case by simp
next
  case (Cons s rest)
  from Cons.IH[OF mergeInv_step[OF Cons.prems, of s]] show ?case by simp
qed

lemma foldl_concat_sections:
  "foldl (\<lambda>st t. foldl mergeSection st (Sections t)) st ts = foldl mergeSection st (concat (map Sections ts))"
  by (induction ts arbitrary: st) auto

lemma mergeTemplates_sections:
  "snd (mergeTemplates templates sets) = mergedByHeading (concat (map Sections templates))"
proof -
  let ?secs = "concat (map Sections templates)"
  obtain merged index where f: "foldl mergeSection ([], Map.empty) ?secs = (merged, index)"
    by (cases "foldl mergeSection ([], Map.empty) ?secs")
  have "mergeInv ?secs (foldl mergeSection ([], Map.empty) ?secs)"
    using mergeInv_foldl[OF mergeInv_init, of ?secs] by simp
  then have "merged = mergedByHeading ?secs" unfolding f by (rule mergeInvD(1))
  with f show ?thesis
    by (simp add: mergeTemplates_def Let_def foldl_concat_sections)
qed

text \<open>
  Claim C9. Structured-section merge. For every list of templates the sections
  \<open>mergeTemplates\<close> returns are the sources merged by trimmed heading (a source with a
  blank heading is left out): one section per heading, in the order in which the
  headings are first seen, each the merge \<open>sectionOf\<close> of the sources under it. When two
  sources share a heading, the merged section has the text of \<open>joinText\<close> (the first
  text that is not blank, a later one appended after a blank line only when it is not
  blank and its trimmed form differs) and as bullets the bullets of both, trimmed, the
  empty ones dropped, each kept once where it is first seen, compared as exact strings.
\<close>

theorem mergeTemplates_by_heading:
  "snd (mergeTemplates templates sets) = mergedByHeading (concat (map Sections templates))
   \<and> map headingKey (snd (mergeTemplates templates sets))
       = firstSeen (filter (\<lambda>h. h \<noteq> []) (map headingKey (concat (map Sections templates))))
   \<and> (headingKey s1 \<noteq> [] \<and> headingKey s2 = headingKey s1 \<longrightarrow>
        snd (mergeTemplates [\<lparr>Title = t1, Sections = [s1]\<rparr>, \<lparr>Title = t2, Sections = [s2]\<rparr>] sets)
          = [\<lparr>Heading = Heading s1,
              Text = joinText (Text s1) (Text s2),
              Bullets = firstSeen (trimAll (Bullets s1 @ Bullets s2))\<rparr>])"
proof -
  let ?secs = "concat (map Sections templates)"
  have 1: "snd (mergeTemplates templates sets) = mergedByHeading ?secs"
    by (rule mergeTemplates_sections)
  have "map headingKey (mergedByHeading ?secs) = headingKeys ?secs"
  proof -
    have "headingKey (sectionOf (sectionsUnder h ?secs)) = h" if "h \<in> set (headingKeys ?secs)" for h
    proof -
      from that have ne: "sectionsUnder h ?secs \<noteq> []" by (rule sectionsUnder_nonempty)
      then show ?thesis by (simp add: headingKey_sectionOf headingKey_hd_sectionsUnder)
    qed
    then have "map (headingKey \<circ> (\<lambda>h. sectionOf (sectionsUnder h ?secs))) (headingKeys ?secs)
                 = map (\<lambda>h. h) (headingKeys ?secs)"
      by (intro map_cong[OF refl]) simp
    then show ?thesis by (simp add: mergedByHeading_def)
  qed
  then have 2: "map headingKey (snd (mergeTemplates templates sets))
       = firstSeen (filter (\<lambda>h. h \<noteq> []) (map headingKey ?secs))"
    unfolding 1 headingKeys_def .
  have 3: "snd (mergeTemplates [\<lparr>Title = t1, Sections = [s1]\<rparr>, \<lparr>Title = t2, Sections = [s2]\<rparr>] sets)
          = [\<lparr>Heading = Heading s1,
              Text = joinText (Text s1) (Text s2),
              Bullets = firstSeen (trimAll (Bullets s1 @ Bullets s2))\<rparr>]"
    if k: "headingKey s1 \<noteq> []" "headingKey s2 = headingKey s1"
  proof -
    have a: "headingKeys [s1, s2] = [headingKey s1]"
      using k by (simp add: headingKeys_def firstSeen_def)
    have b: "sectionsUnder (headingKey s1) [s1, s2] = [s1, s2]"
      using k by (simp add: sectionsUnder_def)
    have "mergedByHeading [s1, s2] = [sectionOf [s1, s2]]"
      unfolding mergedByHeading_def a by (simp add: b)
    then show ?thesis
      by (simp add: mergeTemplates_sections sectionOf_def)
  qed
  show ?thesis using 1 2 3 by blast
qed

theorem mergeTemplates_by_heading_witness:
  "snd (mergeTemplates
     [\<lparr>Title = ''PHP'', Sections = [\<lparr>Heading = ''Style'', Text = ''Use tabs. '',
                                       Bullets = ['' a '', ''b'', [], ''a'']\<rparr>]\<rparr>,
      \<lparr>Title = ''Go'', Sections = [\<lparr>Heading = '' Style '', Text = ''Use gofmt.'',
                                      Bullets = [''b '', ''c'', ''A'']\<rparr>]\<rparr>]
     [''php'', ''go''])
   = [\<lparr>Heading = ''Style'', Text = ''Use tabs.\<newline>\<newline>Use gofmt.'', Bullets = [''a'', ''b'', ''c'', ''A'']\<rparr>]"
proof -
  let ?s1 = "\<lparr>Heading = ''Style'', Text = ''Use tabs. '', Bullets = ['' a '', ''b'', [], ''a'']\<rparr>"
  let ?s2 = "\<lparr>Heading = '' Style '', Text = ''Use gofmt.'', Bullets = [''b '', ''c'', ''A'']\<rparr>"
  have k1: "headingKey ?s1 \<noteq> []" by code_simp
  have k2: "headingKey ?s2 = headingKey ?s1" by code_simp
  have t: "joinText (Text ?s1) (Text ?s2) = ''Use tabs.\<newline>\<newline>Use gofmt.''" by code_simp
  have b: "firstSeen (trimAll (Bullets ?s1 @ Bullets ?s2)) = [''a'', ''b'', ''c'', ''A'']" by code_simp
  have h: "Heading ?s1 = ''Style''" by simp
  have "snd (mergeTemplates [\<lparr>Title = ''PHP'', Sections = [?s1]\<rparr>, \<lparr>Title = ''Go'', Sections = [?s2]\<rparr>] [''php'', ''go''])
          = [\<lparr>Heading = Heading ?s1, Text = joinText (Text ?s1) (Text ?s2),
              Bullets = firstSeen (trimAll (Bullets ?s1 @ Bullets ?s2))\<rparr>]"
    by (rule mergeTemplates_by_heading[where ?s1.0 = ?s1 and ?s2.0 = ?s2 and ?t1.0 = "''PHP''"
          and ?t2.0 = "''Go''" and sets = "[''php'', ''go'']",
          THEN conjunct2, THEN conjunct2, THEN mp, OF conjI[OF k1 k2]])
  then show ?thesis unfolding t b h .
qed

end
